theory Spec2Isabelle
  imports Complex_Main "HOL-Library.Word" "HOL-Library.Signed_Division"
begin

section \<open>Kotlin machine integers\<close>

text \<open>
  Kotlin \<^verbatim>\<open>Int\<close> is a 32-bit and \<^verbatim>\<open>Long\<close> a 64-bit two's complement integer:
  \<open>+\<close>, \<open>-\<close> and \<open>*\<close> wrap, \<open>/\<close> truncates towards zero, comparison is signed
  (read with \<open>sint\<close>). Every divisor in the modelled code is a non-zero constant.
\<close>

type_synonym kint = "32 word"
type_synonym klong = "64 word"

definition int_div :: "kint \<Rightarrow> kint \<Rightarrow> kint" where
  "int_div a b = word_of_int (sint a sdiv sint b)"

definition long_div :: "klong \<Rightarrow> klong \<Rightarrow> klong" where
  "long_div a b = word_of_int (sint a sdiv sint b)"

definition toLong :: "kint \<Rightarrow> klong" where
  "toLong i = scast i"

definition toInt :: "klong \<Rightarrow> kint" where
  "toInt l = scast l"

text \<open>The decimal rendering used by a string template \<^verbatim>\<open>"${n}"\<close>.\<close>

definition digit :: "nat \<Rightarrow> char" where
  "digit n = ''0123456789'' ! n"

fun digits :: "nat \<Rightarrow> string" where
  "digits n = (if n < 10 then [digit n] else digits (n div 10) @ [digit (n mod 10)])"

declare digits.simps [simp del]

definition int_toString :: "kint \<Rightarrow> string" where
  "int_toString i = (if sint i < 0 then CHR ''-'' # digits (nat (- sint i))
                     else digits (nat (sint i)))"

section \<open>Files and media containers\<close>

text \<open>
  The file system is a map from paths to files. A file has its bytes and what
  \<^verbatim>\<open>MediaExtractor.setDataSource\<close> finds in it: \<open>None\<close> when the extractor throws,
  otherwise the tracks with their coded samples in file order.
\<close>

type_synonym path = string

record sample =
  sampleTime :: klong
  sampleSize :: nat
  sampleFlags :: int

record track =
  mime :: "string option"
  samples :: "sample list"

record disk_file =
  bytes :: "8 word list"
  media :: "track list option"

type_synonym filesystem = "path \<rightharpoonup> disk_file"

definition file_exists :: "filesystem \<Rightarrow> path \<Rightarrow> bool" where
  "file_exists fs p = (fs p \<noteq> None)"

definition file_length :: "filesystem \<Rightarrow> path \<Rightarrow> nat" where
  "file_length fs p = (case fs p of None \<Rightarrow> 0 | Some f \<Rightarrow> length (bytes f))"

definition file_delete :: "filesystem \<Rightarrow> path \<Rightarrow> filesystem" where
  "file_delete fs p = fs(p := None)"

section \<open>SegmentManager\<close>

definition SEGMENT_DURATION_MS :: klong where
  "SEGMENT_DURATION_MS = 500"

definition SEGMENT_PREFIX :: string where
  "SEGMENT_PREFIX = ''segment_''"

definition SEGMENT_EXTENSION :: string where
  "SEGMENT_EXTENSION = ''.mp4''"

record segment_info =
  file_p :: path
  startTimeMs :: klong
  durationMs :: klong
  index :: kint

record segment_manager =
  cacheDir :: path
  segments :: "segment_info list"
  bufferDurationMs :: klong
  segmentCounter :: kint

definition new_segment_manager :: "path \<Rightarrow> segment_manager" where
  "new_segment_manager dir =
     \<lparr>cacheDir = dir, segments = [], bufferDurationMs = 5000, segmentCounter = 0\<rparr>"

definition segmentDir :: "segment_manager \<Rightarrow> path" where
  "segmentDir sm = cacheDir sm @ ''/video_buffer''"

definition setBufferDuration :: "kint \<Rightarrow> segment_manager \<Rightarrow> segment_manager" where
  "setBufferDuration durationSeconds sm =
     sm\<lparr>bufferDurationMs := toLong durationSeconds * 1000\<rparr>"

definition getBufferDurationSeconds :: "segment_manager \<Rightarrow> kint" where
  "getBufferDurationSeconds sm = toInt (long_div (bufferDurationMs sm) 1000)"

definition maxSegments :: "segment_manager \<Rightarrow> kint" where
  "maxSegments sm = toInt (long_div (bufferDurationMs sm) SEGMENT_DURATION_MS) + 2"

text \<open>
  The loop of \<^verbatim>\<open>trimBuffer\<close>. \<^verbatim>\<open>pollFirst\<close> on an empty deque returns null and the
  body does nothing, so with a negative bound the loop never ends: the value is \<open>None\<close>.
\<close>

partial_function (option) trimLoop ::
  "kint \<Rightarrow> filesystem \<Rightarrow> segment_info list \<Rightarrow> (filesystem \<times> segment_info list) option"
where
  "trimLoop maxSeg fs segs =
     (if int (length segs) > sint maxSeg then
        (case segs of
           [] \<Rightarrow> trimLoop maxSeg fs []
         | oldest # rest \<Rightarrow>
             trimLoop maxSeg
               (if file_exists fs (file_p oldest) then file_delete fs (file_p oldest) else fs) rest)
      else Some (fs, segs))"

declare trimLoop.simps [code]

definition trimBuffer ::
  "filesystem \<times> segment_manager \<Rightarrow> (filesystem \<times> segment_manager) option" where
  "trimBuffer w =
     (case trimLoop (maxSegments (snd w)) (fst w) (segments (snd w)) of
        None \<Rightarrow> None
      | Some (fs', segs') \<Rightarrow> Some (fs', (snd w)\<lparr>segments := segs'\<rparr>))"

text \<open>\<open>timestamp\<close> is the reading of \<^verbatim>\<open>System.currentTimeMillis()\<close>.\<close>

definition createNewSegment ::
  "klong \<Rightarrow> filesystem \<times> segment_manager \<Rightarrow> (path \<times> filesystem \<times> segment_manager) option" where
  "createNewSegment timestamp w =
     (let sm = snd w;
          fileName = SEGMENT_PREFIX @ int_toString (segmentCounter sm) @ SEGMENT_EXTENSION;
          segmentFile = segmentDir sm @ ''/'' @ fileName;
          segmentInfo = \<lparr>file_p = segmentFile, startTimeMs = timestamp,
                         durationMs = SEGMENT_DURATION_MS, index = segmentCounter sm\<rparr>;
          sm1 = sm\<lparr>segments := segments sm @ [segmentInfo],
                   segmentCounter := segmentCounter sm + 1\<rparr>
      in case trimBuffer (fst w, sm1) of
           None \<Rightarrow> None
         | Some (fs', sm') \<Rightarrow> Some (segmentFile, fs', sm'))"

fun mapNotNull :: "('a \<Rightarrow> 'b option) \<Rightarrow> 'a list \<Rightarrow> 'b list" where
  "mapNotNull f [] = []"
| "mapNotNull f (x # xs) = (case f x of None \<Rightarrow> mapNotNull f xs | Some y \<Rightarrow> y # mapNotNull f xs)"

definition getAllSegments :: "filesystem \<Rightarrow> segment_manager \<Rightarrow> path list" where
  "getAllSegments fs sm =
     mapNotNull (\<lambda>it. if file_exists fs (file_p it) \<and> file_length fs (file_p it) > 0
                       then Some (file_p it) else None) (segments sm)"

definition freezeBuffer :: "filesystem \<Rightarrow> segment_manager \<Rightarrow> path list" where
  "freezeBuffer fs sm = getAllSegments fs sm"

fun delete_each :: "segment_info list \<Rightarrow> filesystem \<Rightarrow> filesystem" where
  "delete_each [] fs = fs"
| "delete_each (segment # rest) fs =
     delete_each rest (if file_exists fs (file_p segment) then file_delete fs (file_p segment) else fs)"

definition clearBuffer :: "filesystem \<times> segment_manager \<Rightarrow> filesystem \<times> segment_manager" where
  "clearBuffer w =
     (delete_each (segments (snd w)) (fst w), (snd w)\<lparr>segments := [], segmentCounter := 0\<rparr>)"

text \<open>
  What can happen to a Segment Store: its own operations, and any change of the
  file system made from outside (the recorder writing a chunk, a failed write, a
  file removed by the system).
\<close>

datatype store_op =
  CreateNewSegment klong
| SetBufferDuration kint
| ClearBuffer
| External filesystem

fun store_step ::
  "store_op \<Rightarrow> filesystem \<times> segment_manager \<Rightarrow> (filesystem \<times> segment_manager) option" where
  "store_step (CreateNewSegment ts) w =
     (case createNewSegment ts w of None \<Rightarrow> None | Some (p, fs', sm') \<Rightarrow> Some (fs', sm'))"
| "store_step (SetBufferDuration d) w = Some (fst w, setBufferDuration d (snd w))"
| "store_step ClearBuffer w = Some (clearBuffer w)"
| "store_step (External fs') w = Some (fs', snd w)"

fun store_run ::
  "store_op list \<Rightarrow> filesystem \<times> segment_manager \<Rightarrow> (filesystem \<times> segment_manager) option" where
  "store_run [] w = Some w"
| "store_run (x # xs) w = (case store_step x w of None \<Rightarrow> None | Some w' \<Rightarrow> store_run xs w')"

section \<open>VideoMuxer\<close>

text \<open>
  \<^verbatim>\<open>MediaExtractor\<close> and \<^verbatim>\<open>MediaMuxer\<close> are platform classes. They are modelled by what
  the code reads from them and passes to them: an extractor opened on a file yields the
  file's tracks and, for the selected track, its samples in file order; the muxer records
  the formats added (\<^verbatim>\<open>addTrack\<close> returns the position of the new track) and the samples
  written, in call order. The muxer's constructor creates the output file, empty, and
  \<^verbatim>\<open>stop\<close> leaves in it the tracks written. \<^verbatim>\<open>setDataSource\<close> throws on a file that holds
  no container; every other call on an opened extractor or on the muxer is taken to
  return normally.
  Presentation times and offsets are \<^verbatim>\<open>Long\<close> microseconds: their sums wrap, and they
  are compared as signed numbers.
\<close>

record buffer_info =
  offset :: int
  size_b :: int
  presentationTimeUs :: klong
  flags :: int

record muxing =
  addedTracks :: "string list"
  videoTrackIndex :: int
  audioTrackIndex :: int
  lastVideoPts :: klong
  lastAudioPts :: klong
  muxerStarted :: bool
  writtenSamples :: "(int \<times> buffer_info) list"

definition new_muxing :: muxing where
  "new_muxing = \<lparr>addedTracks = [], videoTrackIndex = - 1, audioTrackIndex = - 1,
                  lastVideoPts = 0, lastAudioPts = 0, muxerStarted = False,
                  writtenSamples = []\<rparr>"

definition startsWith :: "string \<Rightarrow> string \<Rightarrow> bool" where
  "startsWith s pre = (take (length pre) s = pre)"

definition setDataSource :: "filesystem \<Rightarrow> path \<Rightarrow> track list option" where
  "setDataSource fs p = (case fs p of None \<Rightarrow> None | Some f \<Rightarrow> media f)"

definition addTrack :: "string \<Rightarrow> muxing \<Rightarrow> int \<times> muxing" where
  "addTrack format mx =
     (int (length (addedTracks mx)), mx\<lparr>addedTracks := addedTracks mx @ [format]\<rparr>)"

text \<open>The loop \<^verbatim>\<open>for (i in 0 until extractor.trackCount)\<close> that registers the tracks.\<close>

fun setupTracks :: "track list \<Rightarrow> muxing \<Rightarrow> muxing" where
  "setupTracks [] mx = mx"
| "setupTracks (t # ts) mx =
     (case mime t of
        None \<Rightarrow> setupTracks ts mx
      | Some m \<Rightarrow>
          if startsWith m ''video/'' \<and> videoTrackIndex mx < 0 then
            setupTracks ts ((snd (addTrack m mx))\<lparr>videoTrackIndex := fst (addTrack m mx)\<rparr>)
          else if startsWith m ''audio/'' \<and> audioTrackIndex mx < 0 then
            setupTracks ts ((snd (addTrack m mx))\<lparr>audioTrackIndex := fst (addTrack m mx)\<rparr>)
          else setupTracks ts mx)"

text \<open>The track selected by the first loop of \<^verbatim>\<open>copyTrack\<close>: the first one whose MIME type
  has the prefix. With no such track nothing is selected and no sample is read.\<close>

fun selectTrack :: "string \<Rightarrow> track list \<Rightarrow> sample list" where
  "selectTrack mimePrefix [] = []"
| "selectTrack mimePrefix (t # ts) =
     (case mime t of
        None \<Rightarrow> selectTrack mimePrefix ts
      | Some m \<Rightarrow> if startsWith m mimePrefix then samples t else selectTrack mimePrefix ts)"

text \<open>The \<^verbatim>\<open>while (true)\<close> loop of \<^verbatim>\<open>copyTrack\<close> over the samples that remain.\<close>

fun copyLoop ::
  "int \<Rightarrow> klong \<Rightarrow> sample list \<Rightarrow> klong \<times> (int \<times> buffer_info) list
     \<Rightarrow> klong \<times> (int \<times> buffer_info) list"
where
  "copyLoop targetTrackIndex ptsOffset [] acc = acc"
| "copyLoop targetTrackIndex ptsOffset (s # rest) acc =
     (let bufferInfo = \<lparr>offset = 0, size_b = int (sampleSize s),
                          presentationTimeUs = sampleTime s + ptsOffset,
                          flags = sampleFlags s\<rparr>;
          maxPts = (if sint (presentationTimeUs bufferInfo) > sint (fst acc)
                    then presentationTimeUs bufferInfo else fst acc)
      in copyLoop targetTrackIndex ptsOffset rest
           (maxPts, snd acc @ [(targetTrackIndex, bufferInfo)]))"

definition copyTrack ::
  "track list \<Rightarrow> int \<Rightarrow> string \<Rightarrow> klong \<Rightarrow> muxing \<Rightarrow> klong \<times> muxing" where
  "copyTrack extractor targetTrackIndex mimePrefix ptsOffset mx =
     (let r = copyLoop targetTrackIndex ptsOffset (selectTrack mimePrefix extractor)
                (ptsOffset, writtenSamples mx)
      in (fst r + 33333, mx\<lparr>writtenSamples := snd r\<rparr>))"

text \<open>The body of the loop over the segments, with its \<^verbatim>\<open>continue\<close> and its
  \<^verbatim>\<open>catch\<close>: both leave the muxing state as it is.\<close>

definition processSegment :: "filesystem \<Rightarrow> path \<Rightarrow> muxing \<Rightarrow> muxing" where
  "processSegment fs segment mx =
     (if \<not> file_exists fs segment \<or> file_length fs segment = 0 then mx
      else case setDataSource fs segment of
        None \<Rightarrow> mx
      | Some extractor \<Rightarrow>
          (let mx1 = (if \<not> muxerStarted mx
                      then (setupTracks extractor mx)\<lparr>muxerStarted := True\<rparr> else mx);
               mx2 = (if videoTrackIndex mx1 \<ge> 0
                      then (let r = copyTrack extractor (videoTrackIndex mx1) ''video/''
                                      (lastVideoPts mx1) mx1
                            in (snd r)\<lparr>lastVideoPts := fst r\<rparr>)
                      else mx1);
               mx3 = (if audioTrackIndex mx2 \<ge> 0
                      then (let r = copyTrack extractor (audioTrackIndex mx2) ''audio/''
                                      (lastAudioPts mx2) mx2
                            in (snd r)\<lparr>lastAudioPts := fst r\<rparr>)
                      else mx2)
           in mx3))"

fun muxLoop :: "filesystem \<Rightarrow> path list \<Rightarrow> muxing \<Rightarrow> muxing" where
  "muxLoop fs [] mx = mx"
| "muxLoop fs (segment # rest) mx = muxLoop fs rest (processSegment fs segment mx)"

text \<open>What the platform provides to the muxer and to the recorder.\<close>

record media_entry =
  displayName :: string
  relativePath :: "string option"
  isPending :: bool
  content :: "8 word list"

type_synonym media_store = "string \<rightharpoonup> media_entry"

record platform =
  formattedDate :: string
  contextCacheDir :: path
  sdkAtLeastQ :: bool
  resolverInsert :: "string option"
  outputStreamOpens :: bool
  mp4Bytes :: "track list \<Rightarrow> 8 word list"

text \<open>The tracks of the file a stopped muxer leaves: one per format added, holding
  the samples written to it.\<close>

definition muxedTrack :: "muxing \<Rightarrow> nat \<Rightarrow> track" where
  "muxedTrack mx i =
     \<lparr>mime = Some (addedTracks mx ! i),
      samples = map (\<lambda>w. \<lparr>sampleTime = presentationTimeUs (snd w),
                           sampleSize = nat (size_b (snd w)),
                           sampleFlags = flags (snd w)\<rparr>)
                  (filter (\<lambda>w. fst w = int i) (writtenSamples mx))\<rparr>"

definition muxedTracks :: "muxing \<Rightarrow> track list" where
  "muxedTracks mx = map (muxedTrack mx) [0 ..< length (addedTracks mx)]"

definition concatenateWithMuxer ::
  "platform \<Rightarrow> filesystem \<Rightarrow> path list \<Rightarrow> path \<Rightarrow> filesystem \<times> muxing" where
  "concatenateWithMuxer env fs segmentFiles output =
     (let fs0 = fs(output \<mapsto> \<lparr>bytes = [], media = None\<rparr>);
          mx = muxLoop fs0 segmentFiles new_muxing
      in (if muxerStarted mx
          then fs0(output \<mapsto> \<lparr>bytes = mp4Bytes env (muxedTracks mx),
                                media = Some (muxedTracks mx)\<rparr>)
          else fs0, mx))"

text \<open>Kotlin's \<^verbatim>\<open>File.copyTo(target, overwrite = true)\<close>; \<open>False\<close> when it throws.\<close>

definition copyTo :: "filesystem \<Rightarrow> path \<Rightarrow> path \<Rightarrow> bool \<times> filesystem" where
  "copyTo fs source target =
     (if \<not> file_exists fs source then (False, fs)
      else let fs1 = (if file_exists fs target then file_delete fs target else fs)
           in case fs1 source of
                None \<Rightarrow> (False, fs1)
              | Some f \<Rightarrow> (True, fs1(target \<mapsto> f)))"

text \<open>\<^verbatim>\<open>saveToMediaStore\<close>; no reference when it throws: the resolver's insert returned
  null, or the stream opened and the temporary file is not there to be read.\<close>

definition saveToMediaStore ::
  "platform \<Rightarrow> filesystem \<times> media_store \<Rightarrow> path \<Rightarrow> string \<Rightarrow> string option \<times> media_store" where
  "saveToMediaStore env w tempFile fileName =
     (case resolverInsert env of
        None \<Rightarrow> (None, snd w)
      | Some uri \<Rightarrow>
          (let entry = \<lparr>displayName = fileName,
                        relativePath = (if sdkAtLeastQ env then Some ''Movies/RORK'' else None),
                        isPending = sdkAtLeastQ env, content = []\<rparr>;
               ms1 = (snd w)(uri \<mapsto> entry)
           in if outputStreamOpens env then
                (case fst w tempFile of
                   None \<Rightarrow> (None, ms1)
                 | Some f \<Rightarrow> (Some uri, ms1(uri \<mapsto> entry\<lparr>content := bytes f, isPending := False\<rparr>)))
              else (Some uri, ms1(uri \<mapsto> entry\<lparr>isPending := False\<rparr>))))"

definition tempOutputPath :: "platform \<Rightarrow> path" where
  "tempOutputPath env = contextCacheDir env @ ''/temp_output_'' @ formattedDate env @ ''.mp4''"

definition concatenateSegments ::
  "platform \<Rightarrow> filesystem \<times> media_store \<Rightarrow> path list \<Rightarrow> string
     \<Rightarrow> string option \<times> filesystem \<times> media_store" where
  "concatenateSegments env w segmentFiles username =
     (if segmentFiles = [] then (None, w)
      else
        (let timestamp = formattedDate env;
             outputFileName = username @ ''_'' @ timestamp @ ''.mp4'';
             tempOutput = tempOutputPath env;
             muxed = (if length segmentFiles = 1 then copyTo (fst w) (segmentFiles ! 0) tempOutput
                      else (True, fst (concatenateWithMuxer env (fst w) segmentFiles tempOutput)))
         in if \<not> fst muxed then (None, file_delete (snd muxed) tempOutput, snd w)
            else (let saved = saveToMediaStore env (snd muxed, snd w) tempOutput outputFileName
                  in (fst saved, file_delete (snd muxed) tempOutput, snd saved))))"

section \<open>CircularBufferRecorder\<close>

text \<open>
  The repository holds two variants of the recorder, one binding CameraX through
  \<^verbatim>\<open>ProcessCameraProvider\<close> and one through \<^verbatim>\<open>LifecycleCameraController\<close>. Their state
  machines are the same line for line; they differ in the constant
  \<^verbatim>\<open>SEGMENT_DURATION_MS\<close>, in how a chunk is recorded, and in how \<^verbatim>\<open>stopCamera\<close> reaches
  the camera.
\<close>

datatype variant = ProviderRecorder | ControllerRecorder

fun RECORDER_SEGMENT_DURATION_MS :: "variant \<Rightarrow> klong" where
  "RECORDER_SEGMENT_DURATION_MS ProviderRecorder = 500"
| "RECORDER_SEGMENT_DURATION_MS ControllerRecorder = 2000"

definition DEFAULT_BUFFER_SECONDS :: kint where
  "DEFAULT_BUFFER_SECONDS = 5"

datatype State = IDLE | BUFFERING | CAPTURING_POST | FINALIZING

text \<open>The callbacks are nullable fields invoked with \<^verbatim>\<open>?.invoke\<close>: an event is delivered
  when a listener is set (\<open>True\<close>), and dropped otherwise.\<close>

datatype event =
  BufferReady
| CaptureStarted
| CaptureCompleted string
| Error string string
| StateChanged State

record telemetry_collector =
  isCollecting :: bool
  triggerPressTime :: klong
  recordingStartTime :: klong

record recorder =
  state :: State
  isTriggerActive :: bool
  segmentManager :: segment_manager
  telemetry :: telemetry_collector
  preBufferSeconds :: kint
  postBufferSeconds :: kint
  currentUsername :: string
  onBufferReady :: bool
  onCaptureStarted :: bool
  onCaptureCompleted :: bool
  onError :: bool
  onStateChanged :: bool
  segmentRecordingJob :: "bool option"
  recordingScope :: bool
  preSegments :: "path list"
  postSegments :: "path list"

definition new_recorder :: "path \<Rightarrow> recorder" where
  "new_recorder dir =
     \<lparr>state = IDLE, isTriggerActive = False, segmentManager = new_segment_manager dir,
      telemetry = \<lparr>isCollecting = False, triggerPressTime = 0, recordingStartTime = 0\<rparr>,
      preBufferSeconds = DEFAULT_BUFFER_SECONDS, postBufferSeconds = DEFAULT_BUFFER_SECONDS,
      currentUsername = ''user'',
      onBufferReady = False, onCaptureStarted = False, onCaptureCompleted = False,
      onError = False, onStateChanged = False,
      segmentRecordingJob = None, recordingScope = True,
      preSegments = [], postSegments = []\<rparr>"

definition invoke :: "bool \<Rightarrow> event \<Rightarrow> event list" where
  "invoke listener e = (if listener then [e] else [])"

definition setClipDuration :: "kint \<Rightarrow> recorder \<Rightarrow> recorder" where
  "setClipDuration totalSeconds r =
     (let r1 = r\<lparr>preBufferSeconds := int_div totalSeconds 2\<rparr>;
          r2 = r1\<lparr>postBufferSeconds := totalSeconds - preBufferSeconds r1\<rparr>
      in r2\<lparr>segmentManager := setBufferDuration (preBufferSeconds r2) (segmentManager r2)\<rparr>)"

text \<open>\<open>t1\<close> and \<open>t2\<close> are the clock readings of \<^verbatim>\<open>onTriggerPressed\<close> and
  \<^verbatim>\<open>onRecordingStarted\<close>.\<close>

definition triggerCapture ::
  "klong \<Rightarrow> klong \<Rightarrow> filesystem \<Rightarrow> recorder \<Rightarrow> event list \<times> recorder" where
  "triggerCapture t1 t2 fs r =
     (if state r \<noteq> BUFFERING then
        (invoke (onError r) (Error ''INVALID_STATE'' ''Camera not in buffering state''), r)
      else
        (let r1 = r\<lparr>telemetry := (telemetry r)\<lparr>triggerPressTime := t1\<rparr>,
                     isTriggerActive := True\<rparr>;
             r2 = r1\<lparr>preSegments := [] @ freezeBuffer fs (segmentManager r1)\<rparr>;
             r3 = r2\<lparr>postSegments := []\<rparr>;
             r4 = r3\<lparr>state := CAPTURING_POST\<rparr>;
             r5 = r4\<lparr>telemetry := (telemetry r4)\<lparr>recordingStartTime := t2\<rparr>\<rparr>
         in (invoke (onStateChanged r4) (StateChanged (state r4)) @
             invoke (onCaptureStarted r5) CaptureStarted, r5)))"

definition resetToIdle ::
  "filesystem \<times> recorder \<Rightarrow> event list \<times> filesystem \<times> recorder" where
  "resetToIdle w =
     (let r1 = (snd w)\<lparr>preSegments := [], postSegments := [], isTriggerActive := False\<rparr>;
          cleared = clearBuffer (fst w, segmentManager r1);
          r2 = r1\<lparr>segmentManager := snd cleared\<rparr>;
          r3 = r2\<lparr>state := IDLE\<rparr>
      in (invoke (onStateChanged r3) (StateChanged (state r3)), fst cleared, r3))"

text \<open>
  What the call \<^verbatim>\<open>videoMuxer.concatenateSegments(allSegments, currentUsername)\<close> inside the
  \<^verbatim>\<open>try\<close> of \<^verbatim>\<open>finalizeCapture\<close> can do: return a path or null, or leave by an exception
  (with its message, which may be null), each with the files and the media store as they
  are at that moment.
\<close>

datatype mux_outcome =
  Returned "string option" "filesystem \<times> media_store"
| Thrown "string option" "filesystem \<times> media_store"

type_synonym world = "filesystem \<times> media_store \<times> recorder"

text \<open>\<^verbatim>\<open>finalizeCapture\<close>, with the coroutine it launches run to its end.\<close>

definition finalizeCaptureWith ::
  "(filesystem \<times> media_store \<Rightarrow> path list \<Rightarrow> string \<Rightarrow> mux_outcome) \<Rightarrow> world
     \<Rightarrow> event list \<times> world" where
  "finalizeCaptureWith muxer w =
     (let fs = fst w; ms = fst (snd w);
          r1 = (snd (snd w))\<lparr>state := FINALIZING\<rparr>;
          ev1 = invoke (onStateChanged r1) (StateChanged (state r1));
          allSegments = preSegments r1 @ postSegments r1
      in if allSegments = [] then
           (let ev2 = invoke (onError r1) (Error ''NO_SEGMENTS'' ''No video segments to save'');
                reset = resetToIdle (fs, r1)
            in (ev1 @ ev2 @ fst reset, fst (snd reset), ms, snd (snd reset)))
         else
           (case muxer (fs, ms) allSegments (currentUsername r1) of
              Returned outputPath w' \<Rightarrow>
                (let ev2 = (case outputPath of
                              Some p \<Rightarrow> invoke (onCaptureCompleted r1) (CaptureCompleted p)
                            | None \<Rightarrow> invoke (onError r1)
                                        (Error ''MUXER_FAILED'' ''Failed to create final video''));
                     reset = resetToIdle (fst w', r1)
                 in (ev1 @ ev2 @ fst reset, fst (snd reset), snd w', snd (snd reset)))
            | Thrown message w' \<Rightarrow>
                (let ev2 = invoke (onError r1)
                             (Error ''FINALIZE_FAILED''
                                (case message of Some m \<Rightarrow> m | None \<Rightarrow> ''Unknown error''));
                     reset = resetToIdle (fst w', r1)
                 in (ev1 @ ev2 @ fst reset, fst (snd reset), snd w', snd (snd reset)))))"

definition videoMuxer ::
  "platform \<Rightarrow> filesystem \<times> media_store \<Rightarrow> path list \<Rightarrow> string \<Rightarrow> mux_outcome" where
  "videoMuxer env w segmentFiles username =
     (let r = concatenateSegments env w segmentFiles username in Returned (fst r) (snd r))"

definition finalizeCapture :: "platform \<Rightarrow> world \<Rightarrow> event list \<times> world" where
  "finalizeCapture env w = finalizeCaptureWith (videoMuxer env) w"

text \<open>
  \<^verbatim>\<open>stopCamera\<close> calls the platform three times: \<^verbatim>\<open>currentRecording?.stop()\<close>, the unbinding
  of the camera (\<^verbatim>\<open>cameraProvider?.unbindAll()\<close> in one variant, \<^verbatim>\<open>controller?.unbind()\<close> in the
  other) and \<^verbatim>\<open>cameraExecutor.shutdown()\<close>. Whether such a call leaves by an exception is
  not decided by the recorder (the reference may be null, the caller's thread may or may
  not be the main thread), so it is given from outside.
\<close>

record camera =
  recordingStopThrows :: bool
  unbindThrows :: bool
  shutdownThrows :: bool

text \<open>A call of \<^verbatim>\<open>stopCamera\<close> returns, or leaves by an exception with the recorder as it is
  at the throw.\<close>

datatype stop_outcome =
  StopReturned "filesystem \<times> recorder"
| StopThrown "filesystem \<times> recorder"

fun raised :: "stop_outcome \<Rightarrow> bool" where
  "raised (StopReturned w) = False"
| "raised (StopThrown w) = True"

fun leaves :: "stop_outcome \<Rightarrow> filesystem \<times> recorder" where
  "leaves (StopReturned w) = w"
| "leaves (StopThrown w) = w"

definition cancelJob :: "recorder \<Rightarrow> recorder" where
  "cancelJob r =
     r\<lparr>segmentRecordingJob := (case segmentRecordingJob r of None \<Rightarrow> None | Some a \<Rightarrow> Some False)\<rparr>"

definition stopCollection :: "recorder \<Rightarrow> recorder" where
  "stopCollection r = r\<lparr>telemetry := (telemetry r)\<lparr>isCollecting := False\<rparr>\<rparr>"

text \<open>
  The variant with \<^verbatim>\<open>ProcessCameraProvider\<close> stops the recording and unbinds the camera on
  the caller's thread, with no \<^verbatim>\<open>try\<close> around either, before it sets the state. The variant
  with \<^verbatim>\<open>LifecycleCameraController\<close> posts both to the main executor, the unbinding inside a
  \<^verbatim>\<open>try\<close> whose \<^verbatim>\<open>catch\<close> ignores the error: nothing of the posted block reaches the caller.
\<close>

fun stopCamera :: "variant \<Rightarrow> camera \<Rightarrow> filesystem \<times> recorder \<Rightarrow> stop_outcome" where
  "stopCamera ProviderRecorder cam w =
     (let r1 = cancelJob (snd w)
      in if recordingStopThrows cam then StopThrown (fst w, r1)
         else
           (let r2 = stopCollection r1;
                cleared = clearBuffer (fst w, segmentManager r2);
                r3 = r2\<lparr>segmentManager := snd cleared\<rparr>
            in if unbindThrows cam then StopThrown (fst cleared, r3)
               else if shutdownThrows cam then StopThrown (fst cleared, r3)
               else (let r4 = r3\<lparr>recordingScope := False\<rparr>
                     in StopReturned (fst cleared, r4\<lparr>state := IDLE\<rparr>))))"
| "stopCamera ControllerRecorder cam w =
     (let r1 = cancelJob (snd w);
          r2 = stopCollection r1;
          cleared = clearBuffer (fst w, segmentManager r2);
          r3 = r2\<lparr>segmentManager := snd cleared\<rparr>;
          r4 = r3\<lparr>recordingScope := False\<rparr>
      in if shutdownThrows cam then StopThrown (fst cleared, r4)
         else StopReturned (fst cleared, r4\<lparr>state := IDLE\<rparr>))"

subsection \<open>The segment-record loop\<close>

text \<open>
  One turn of the loop of \<^verbatim>\<open>startSegmentLoop\<close> creates a segment, records into it and
  then reads the state again. What happens while \<^verbatim>\<open>recordSegment\<close> is suspended comes
  from outside: the caller's thread may call \<^verbatim>\<open>triggerCapture\<close> or \<^verbatim>\<open>stopCamera\<close>, seeing
  at the segment's path the file as it is \<open>during\<close> the recording, and in the end the
  backend leaves there the file \<open>recorded\<close>, or none. The product
  \<^verbatim>\<open>postSegments.size * SEGMENT_DURATION_MS\<close> is a \<^verbatim>\<open>Long\<close> below \<open>2 ^ 31 * 2000\<close>, so it
  is computed on the integers.
\<close>

datatype caller = NoCall | CallTrigger klong klong | CallStop camera

record turn =
  clock :: klong
  during :: "disk_file option"
  called :: caller
  recorded :: "disk_file option"

definition isActive :: "recorder \<Rightarrow> bool" where
  "isActive r = (recordingScope r \<and> segmentRecordingJob r = Some True)"

definition recordSegment ::
  "variant \<Rightarrow> turn \<Rightarrow> path \<Rightarrow> filesystem \<times> recorder \<Rightarrow> filesystem \<times> recorder" where
  "recordSegment v t segmentFile w =
     (let fs1 = (fst w)(segmentFile := during t);
          w2 = (case called t of
                  NoCall \<Rightarrow> (fs1, snd w)
                | CallTrigger t1 t2 \<Rightarrow> (fs1, snd (triggerCapture t1 t2 fs1 (snd w)))
                | CallStop cam \<Rightarrow> leaves (stopCamera v cam (fs1, snd w)))
      in ((fst w2)(segmentFile := recorded t), snd w2))"

datatype loop_exit =
  LoopExit "filesystem \<times> recorder"
| StillRunning "filesystem \<times> recorder"
| NeverReturns

text \<open>The loop, one list element per turn; \<open>StillRunning\<close> when the turns given are used
  up, \<open>NeverReturns\<close> when \<^verbatim>\<open>createNewSegment\<close> does not return.\<close>

fun segmentLoop :: "variant \<Rightarrow> turn list \<Rightarrow> filesystem \<times> recorder \<Rightarrow> loop_exit" where
  "segmentLoop v [] w =
     (if isActive (snd w) \<and> (state (snd w) = BUFFERING \<or> state (snd w) = CAPTURING_POST)
      then StillRunning w else LoopExit w)"
| "segmentLoop v (t # ts) w =
     (if isActive (snd w) \<and> (state (snd w) = BUFFERING \<or> state (snd w) = CAPTURING_POST) then
        (case createNewSegment (clock t) (fst w, segmentManager (snd w)) of
           None \<Rightarrow> NeverReturns
         | Some (segmentFile, fs1, sm1) \<Rightarrow>
             (let w2 = recordSegment v t segmentFile (fs1, (snd w)\<lparr>segmentManager := sm1\<rparr>)
              in if state (snd w2) = CAPTURING_POST then
                   (let r3 = (snd w2)\<lparr>postSegments := postSegments (snd w2) @ [segmentFile]\<rparr>;
                        postDurationMs = int (length (postSegments r3))
                                           * sint (RECORDER_SEGMENT_DURATION_MS v)
                    in if postDurationMs \<ge> sint (toLong (postBufferSeconds r3) * 1000)
                       then LoopExit (fst w2, r3)
                       else segmentLoop v ts (fst w2, r3))
                 else segmentLoop v ts w2))
      else LoopExit w)"

text \<open>The coroutine launched by \<^verbatim>\<open>startSegmentLoop\<close>: the loop, then the finalization
  when the loop was left while capturing.\<close>

definition startSegmentLoop ::
  "variant \<Rightarrow> platform \<Rightarrow> turn list \<Rightarrow> world \<Rightarrow> (event list \<times> world) option" where
  "startSegmentLoop v env ts w =
     (case segmentLoop v ts (fst w, snd (snd w)) of
        LoopExit w' \<Rightarrow>
          (if state (snd w') = CAPTURING_POST
           then Some (finalizeCapture env (fst w', fst (snd w), snd w'))
           else Some ([], fst w', fst (snd w), snd w'))
      | StillRunning w' \<Rightarrow> None
      | NeverReturns \<Rightarrow> None)"

section \<open>Invariants\<close>

text \<open>What holds of a Segment Store after at most \<open>n\<close> operations: the counter has not
  wrapped, and the tracked segments are in the order of their indices, all below the
  counter.\<close>

definition store_inv :: "nat \<Rightarrow> segment_manager \<Rightarrow> bool" where
  "store_inv n sm \<longleftrightarrow>
     0 \<le> sint (segmentCounter sm) \<and> sint (segmentCounter sm) \<le> int n \<and>
     sorted_wrt (<) (map (\<lambda>s. sint (index s)) (segments sm)) \<and>
     (\<forall>s\<in>set (segments sm). sint (index s) < sint (segmentCounter sm))"

section \<open>Observations on the Concatenator\<close>

text \<open>A segment file that the loop of \<^verbatim>\<open>concatenateWithMuxer\<close> does not skip, and one that
  it reads: the extractor opens it.\<close>

definition usable :: "filesystem \<Rightarrow> path \<Rightarrow> bool" where
  "usable fs p \<longleftrightarrow> file_exists fs p \<and> file_length fs p \<noteq> 0"

definition readable :: "filesystem \<Rightarrow> path \<Rightarrow> bool" where
  "readable fs p \<longleftrightarrow> usable fs p \<and> setDataSource fs p \<noteq> None"

datatype track_kind = VideoTrack | AudioTrack

fun mimePrefixOf :: "track_kind \<Rightarrow> string" where
  "mimePrefixOf VideoTrack = ''video/''"
| "mimePrefixOf AudioTrack = ''audio/''"

fun trackIndexOf :: "track_kind \<Rightarrow> muxing \<Rightarrow> int" where
  "trackIndexOf VideoTrack mx = videoTrackIndex mx"
| "trackIndexOf AudioTrack mx = audioTrackIndex mx"

fun lastPtsOf :: "track_kind \<Rightarrow> muxing \<Rightarrow> klong" where
  "lastPtsOf VideoTrack mx = lastVideoPts mx"
| "lastPtsOf AudioTrack mx = lastAudioPts mx"

text \<open>The samples of a kind that an extractor opened on a file reads, as \<^verbatim>\<open>copyTrack\<close> does;
  and those the loop reads from a segment, none when it skips it.\<close>

definition segmentSamples :: "filesystem \<Rightarrow> track_kind \<Rightarrow> path \<Rightarrow> sample list" where
  "segmentSamples fs k p =
     (case setDataSource fs p of None \<Rightarrow> [] | Some trks \<Rightarrow> selectTrack (mimePrefixOf k) trks)"

definition readSamples :: "filesystem \<Rightarrow> track_kind \<Rightarrow> path \<Rightarrow> sample list" where
  "readSamples fs k p = (if usable fs p then segmentSamples fs k p else [])"

definition carries :: "filesystem \<Rightarrow> track_kind \<Rightarrow> path \<Rightarrow> bool" where
  "carries fs k p \<longleftrightarrow> readSamples fs k p \<noteq> []"

text \<open>A sample without its timestamp, and the timestamps of samples as signed numbers.\<close>

definition untimed :: "sample \<Rightarrow> nat \<times> int" where
  "untimed s = (sampleSize s, sampleFlags s)"

definition timestamps :: "sample list \<Rightarrow> int list" where
  "timestamps ss = map (\<lambda>s. sint (sampleTime s)) ss"

text \<open>The output has a track of a kind when the first segment read holds one: the tracks
  are added to the muxer there, and nowhere else.\<close>

definition hasTrack :: "track_kind \<Rightarrow> track list \<Rightarrow> bool" where
  "hasTrack k trks =
     list_ex (\<lambda>t. case mime t of None \<Rightarrow> False | Some m \<Rightarrow> startsWith m (mimePrefixOf k)) trks"

definition registers :: "filesystem \<Rightarrow> track_kind \<Rightarrow> path list \<Rightarrow> bool" where
  "registers fs k segs =
     (case find (readable fs) segs of
        None \<Rightarrow> False
      | Some p \<Rightarrow> (case setDataSource fs p of None \<Rightarrow> False | Some trks \<Rightarrow> hasTrack k trks))"

text \<open>The original timestamps that the loop reads from a segment lie between 0 and \<open>B\<close>.\<close>

definition bounded_times :: "int \<Rightarrow> filesystem \<Rightarrow> path \<Rightarrow> bool" where
  "bounded_times B fs p \<longleftrightarrow>
     list_all (\<lambda>s. 0 \<le> sint (sampleTime s) \<and> sint (sampleTime s) \<le> B) (readSamples fs VideoTrack p) \<and>
     list_all (\<lambda>s. 0 \<le> sint (sampleTime s) \<and> sint (sampleTime s) \<le> B) (readSamples fs AudioTrack p)"

text \<open>What one call of \<^verbatim>\<open>copyTrack\<close> writes for a sample, and what it returns.\<close>

definition writtenAs :: "int \<Rightarrow> klong \<Rightarrow> sample \<Rightarrow> int \<times> buffer_info" where
  "writtenAs i off s =
     (i, \<lparr>offset = 0, size_b = int (sampleSize s),
          presentationTimeUs = sampleTime s + off, flags = sampleFlags s\<rparr>)"

definition laterOf :: "klong \<Rightarrow> klong \<Rightarrow> klong" where
  "laterOf m t = (if sint t > sint m then t else m)"

definition nextOffset :: "klong \<Rightarrow> sample list \<Rightarrow> klong" where
  "nextOffset off ss = fold (\<lambda>s m. laterOf m (sampleTime s + off)) ss off + 33333"

text \<open>The samples the loop writes to one output track for the sample lists of the
  segments it reads, from a given offset on, and the offset it ends with.\<close>

definition shifted :: "klong \<Rightarrow> sample \<Rightarrow> sample" where
  "shifted off s = s\<lparr>sampleTime := sampleTime s + off\<rparr>"

fun retimedSamples :: "klong \<Rightarrow> sample list list \<Rightarrow> sample list" where
  "retimedSamples off [] = []"
| "retimedSamples off (ss # rest) = map (shifted off) ss @ retimedSamples (nextOffset off ss) rest"

fun offsetAfter :: "klong \<Rightarrow> sample list list \<Rightarrow> klong" where
  "offsetAfter off [] = off"
| "offsetAfter off (ss # rest) = offsetAfter (nextOffset off ss) rest"

text \<open>What a segment adds to the samples written, for one kind; and a sample written, as
  the output file holds it.\<close>

definition writes :: "filesystem \<Rightarrow> path \<Rightarrow> muxing \<Rightarrow> track_kind \<Rightarrow> (int \<times> buffer_info) list" where
  "writes fs p mx k =
     (if 0 \<le> trackIndexOf k (processSegment fs p mx)
      then map (writtenAs (trackIndexOf k (processSegment fs p mx)) (lastPtsOf k mx))
             (readSamples fs k p)
      else [])"

definition asSample :: "int \<times> buffer_info \<Rightarrow> sample" where
  "asSample w = \<lparr>sampleTime = presentationTimeUs (snd w), sampleSize = nat (size_b (snd w)),
                 sampleFlags = flags (snd w)\<rparr>"

definition trackSamples :: "track_kind \<Rightarrow> muxing \<Rightarrow> sample list" where
  "trackSamples k mx =
     map asSample (filter (\<lambda>w. fst w = trackIndexOf k mx) (writtenSamples mx))"

text \<open>The sample lists of a kind of the segments the loop reads, in order; and the
  timestamps of a kind that an extractor reads from the output of
  \<^verbatim>\<open>concatenateWithMuxer\<close>.\<close>

definition readLists :: "filesystem \<Rightarrow> track_kind \<Rightarrow> path list \<Rightarrow> sample list list" where
  "readLists fs k segs = map (readSamples fs k) (filter (readable fs) segs)"

definition outputTimestamps ::
  "platform \<Rightarrow> filesystem \<Rightarrow> track_kind \<Rightarrow> path list \<Rightarrow> path \<Rightarrow> int list" where
  "outputTimestamps env fs k segs out =
     timestamps (segmentSamples (fst (concatenateWithMuxer env fs segs out)) k out)"

text \<open>What holds of the muxing state all along the loop: a registered track is among the
  formats added, under the MIME type of its kind; every format added is a registered
  track; and nothing is registered or written before the muxer is started.\<close>

definition reg_inv :: "muxing \<Rightarrow> bool" where
  "reg_inv mx \<longleftrightarrow>
     (\<forall>k. 0 \<le> trackIndexOf k mx \<longrightarrow>
        trackIndexOf k mx < int (length (addedTracks mx)) \<and>
        startsWith (addedTracks mx ! nat (trackIndexOf k mx)) (mimePrefixOf k)) \<and>
     (\<forall>i<length (addedTracks mx). \<exists>k. trackIndexOf k mx = int i)"

definition trk_inv :: "muxing \<Rightarrow> bool" where
  "trk_inv mx \<longleftrightarrow>
     reg_inv mx \<and>
     (\<not> muxerStarted mx \<longrightarrow>
        addedTracks mx = [] \<and> writtenSamples mx = [] \<and>
        (\<forall>k. trackIndexOf k mx < 0 \<and> lastPtsOf k mx = 0))"

section \<open>The Segment Store\<close>

lemma trimLoop_bound:
  assumes "trimLoop m fs segs = Some r"
  shows "int (length (snd r)) \<le> sint m"
proof (rule trimLoop.raw_induct [where P = "\<lambda>m fs segs r. int (length (snd r)) \<le> sint m", OF _ assms])
  fix f :: "kint \<Rightarrow> filesystem \<Rightarrow> segment_info list \<Rightarrow> (filesystem \<times> segment_info list) option"
  fix m fs segs r
  assume ih: "\<And>m fs segs r. f m fs segs = Some r \<Longrightarrow> int (length (snd r)) \<le> sint m"
  assume body: "(if int (length segs) > sint m then
        (case segs of
           [] \<Rightarrow> f m fs []
         | oldest # rest \<Rightarrow>
             f m (if file_exists fs (file_p oldest) then file_delete fs (file_p oldest) else fs) rest)
      else Some (fs, segs)) = Some r"
  show "int (length (snd r)) \<le> sint m"
  proof (cases "int (length segs) > sint m")
    case True
    with body ih show ?thesis by (cases segs) auto
  next
    case False
    with body show ?thesis by auto
  qed
qed

lemma sdiv_exact: "0 < b \<Longrightarrow> (b * y) sdiv b = (y::int)"
  by (simp add: signed_divide_int_def sgn_mult abs_mult mult_sgn_abs)

lemma sint_toLong_times: "sint (toLong d * 1000) = sint d * 1000"
proof -
  have r: "- (2 ^ 31) \<le> sint d" "sint d < 2 ^ 31"
    using sint_ge [of d] sint_lt [of d] by simp_all
  have "sint (toLong d) = sint d"
    unfolding toLong_def by (simp add: sint_up_scast is_up)
  then have "sint (toLong d * 1000) = signed_take_bit 63 (sint d * 1000)"
    by (simp add: sint_word_mult)
  also have "\<dots> = sint d * 1000"
    using r by (intro signed_take_bit_int_eq_self) simp_all
  finally show ?thesis .
qed

lemma sint_SEGMENT_DURATION_MS: "sint SEGMENT_DURATION_MS = 500"
  by (simp add: SEGMENT_DURATION_MS_def)

lemma sint_long_div_window:
  "sint (long_div (toLong d * 1000) SEGMENT_DURATION_MS) = 2 * sint d"
proof -
  have r: "- (2 ^ 31) \<le> sint d" "sint d < 2 ^ 31"
    using sint_ge [of d] sint_lt [of d] by simp_all
  have "(500 * (2 * sint d)) sdiv 500 = 2 * sint d"
    by (rule sdiv_exact) simp
  then have q: "(sint d * 1000) sdiv 500 = 2 * sint d"
    by (simp add: mult.commute)
  have "long_div (toLong d * 1000) SEGMENT_DURATION_MS = word_of_int (2 * sint d)"
    unfolding long_div_def sint_toLong_times sint_SEGMENT_DURATION_MS q ..
  then have "sint (long_div (toLong d * 1000) SEGMENT_DURATION_MS) = signed_take_bit 63 (2 * sint d)"
    by (simp only: sint_sbintrunc') simp
  also have "\<dots> = 2 * sint d"
    using r by (intro signed_take_bit_int_eq_self) simp_all
  finally show ?thesis .
qed

lemma sint_maxSegments:
  "sint (maxSegments (setBufferDuration d sm)) = signed_take_bit 31 (2 * sint d + 2)"
proof -
  have "toInt (long_div (toLong d * 1000) SEGMENT_DURATION_MS) = word_of_int (2 * sint d)"
    unfolding toInt_def scast_eq sint_long_div_window ..
  then have "maxSegments (setBufferDuration d sm) = word_of_int (2 * sint d + 2)"
    by (simp add: maxSegments_def setBufferDuration_def)
  then show ?thesis by (simp only: sint_sbintrunc') simp
qed

lemma ceil_window:
  "\<lceil>real_of_int (sint (bufferDurationMs (setBufferDuration d sm))) / real_of_int (sint SEGMENT_DURATION_MS)\<rceil> = 2 * sint d"
proof -
  have "bufferDurationMs (setBufferDuration d sm) = toLong d * 1000"
    by (simp add: setBufferDuration_def)
  then have a: "sint (bufferDurationMs (setBufferDuration d sm)) = sint d * 1000"
    by (simp only: sint_toLong_times)
  have "real_of_int (sint d * 1000) / real_of_int 500 = real_of_int (2 * sint d)" by simp
  then have "\<lceil>real_of_int (sint d * 1000) / real_of_int 500\<rceil> = 2 * sint d" 
    by (simp only: ceiling_of_int)
  then show ?thesis
    by (simp only: a sint_SEGMENT_DURATION_MS)
qed
lemma trimLoop_suffix:
  assumes "trimLoop m fs segs = Some r"
  shows "\<exists>k. snd r = drop k segs"
proof (rule trimLoop.raw_induct [where P = "\<lambda>m fs segs r. \<exists>k. snd r = drop k segs", OF _ assms])
  fix f :: "kint \<Rightarrow> filesystem \<Rightarrow> segment_info list \<Rightarrow> (filesystem \<times> segment_info list) option"
  fix m fs segs r
  assume ih: "\<And>m fs segs r. f m fs segs = Some r \<Longrightarrow> \<exists>k. snd r = drop k segs"
  assume body: "(if int (length segs) > sint m then
        (case segs of
           [] \<Rightarrow> f m fs []
         | oldest # rest \<Rightarrow>
             f m (if file_exists fs (file_p oldest) then file_delete fs (file_p oldest) else fs) rest)
      else Some (fs, segs)) = Some r"
  show "\<exists>k. snd r = drop k segs"
  proof (cases "int (length segs) > sint m")
    case True
    show ?thesis
    proof (cases segs)
      case Nil
      with True body ih [of m fs "[]" r] show ?thesis by simp
    next
      case (Cons oldest rest)
      with True body obtain fs' where "f m fs' rest = Some r" by (auto split: if_splits)
      from ih [OF this] obtain k where "snd r = drop k rest" ..
      then have "snd r = drop (Suc k) segs" using Cons by simp
      then show ?thesis ..
    qed
  next
    case False
    with body have "snd r = drop 0 segs" by auto
    then show ?thesis ..
  qed
qed

lemma trimLoop_closed:
  "0 \<le> sint m \<Longrightarrow>
   trimLoop m fs segs =
     Some (delete_each (take (length segs - nat (sint m)) segs) fs,
           drop (length segs - nat (sint m)) segs)"
proof (induction segs arbitrary: fs)
  case Nil
  then show ?case by (subst trimLoop.simps) simp
next
  case (Cons a segs)
  show ?case
  proof (cases "int (length (a # segs)) > sint m")
    case True
    then have "nat (sint m) \<le> length segs"
      using Cons.prems by simp
    then have "Suc (length segs) - nat (sint m) = Suc (length segs - nat (sint m))"
      by (rule Suc_diff_le)
    with True Cons show ?thesis by (subst trimLoop.simps) simp
  next
    case False
    then have "Suc (length segs) - nat (sint m) = 0" by simp
    with False show ?thesis by (subst trimLoop.simps) simp
  qed
qed

lemma createNewSegment_window:
  "createNewSegment ts w = Some (p, fs', sm') \<Longrightarrow> bufferDurationMs sm' = bufferDurationMs (snd w)"
  by (auto simp: createNewSegment_def trimBuffer_def Let_def split: option.splits)

lemma createNewSegment_size:
  assumes "createNewSegment ts w = Some (p, fs', sm')"
  shows "int (length (segments sm')) \<le> sint (maxSegments (snd w))"
proof -
  let ?sm1 = "(snd w)\<lparr>segments := segments (snd w) @
       [\<lparr>file_p = segmentDir (snd w) @ ''/'' @ SEGMENT_PREFIX @ int_toString (segmentCounter (snd w)) @ SEGMENT_EXTENSION,
         startTimeMs = ts, durationMs = SEGMENT_DURATION_MS, index = segmentCounter (snd w)\<rparr>],
       segmentCounter := segmentCounter (snd w) + 1\<rparr>"
  from assms obtain segs' where t: "trimLoop (maxSegments ?sm1) (fst w) (segments ?sm1) = Some (fs', segs')"
    and s: "sm' = ?sm1\<lparr>segments := segs'\<rparr>"
    by (auto simp: createNewSegment_def trimBuffer_def Let_def split: option.splits)
  have "maxSegments ?sm1 = maxSegments (snd w)" by (simp add: maxSegments_def)
  with trimLoop_bound [OF t] s show ?thesis by simp
qed

lemma createNewSegment_returns:
  assumes "0 \<le> sint (maxSegments (snd w))"
  shows "createNewSegment ts w \<noteq> None"
proof -
  have "\<And>sm1. maxSegments sm1 = maxSegments (snd w) \<Longrightarrow> trimBuffer (fst w, sm1) \<noteq> None"
    using assms by (simp add: trimBuffer_def trimLoop_closed)
  then show ?thesis
    by (auto simp: createNewSegment_def Let_def maxSegments_def split: option.splits)
qed

lemma run_creates_window:
  "store_run (map CreateNewSegment ts) w = Some w' \<Longrightarrow> bufferDurationMs (snd w') = bufferDurationMs (snd w)"
proof (induction ts arbitrary: w)
  case Nil
  then show ?case by simp
next
  case (Cons t ts)
  from Cons.prems obtain p fs1 sm1 where c: "createNewSegment t w = Some (p, fs1, sm1)"
    and r: "store_run (map CreateNewSegment ts) (fs1, sm1) = Some w'"
    by (auto split: option.splits)
  from Cons.IH [OF r] createNewSegment_window [OF c] show ?case by simp
qed

lemma maxSegments_window:
  "bufferDurationMs sm' = bufferDurationMs sm \<Longrightarrow> maxSegments sm' = maxSegments sm"
  by (simp add: maxSegments_def)

lemma run_creates_size:
  assumes "store_run (map CreateNewSegment ts) w = Some w'"
    and "ts \<noteq> [] \<or> int (length (segments (snd w))) \<le> sint (maxSegments (snd w))"
  shows "int (length (segments (snd w'))) \<le> sint (maxSegments (snd w))"
  using assms
proof (induction ts arbitrary: w)
  case Nil
  then show ?case by simp
next
  case (Cons t ts)
  from Cons.prems(1) obtain p fs1 sm1 where c: "createNewSegment t w = Some (p, fs1, sm1)"
    and r: "store_run (map CreateNewSegment ts) (fs1, sm1) = Some w'"
    by (auto split: option.splits)
  have m: "maxSegments sm1 = maxSegments (snd w)"
    using createNewSegment_window [OF c] by (rule maxSegments_window)
  have "int (length (segments sm1)) \<le> sint (maxSegments sm1)"
    using createNewSegment_size [OF c] m by simp
  with Cons.IH [OF r] m show ?case by simp
qed

lemma run_creates_returns:
  assumes "0 \<le> sint (maxSegments (snd w))"
  shows "store_run (map CreateNewSegment ts) w \<noteq> None"
  using assms
proof (induction ts arbitrary: w)
  case Nil
  then show ?case by simp
next
  case (Cons t ts)
  from createNewSegment_returns [OF Cons.prems, of t]
  obtain p fs1 sm1 where c: "createNewSegment t w = Some (p, fs1, sm1)" by auto
  have "maxSegments sm1 = maxSegments (snd w)"
    using createNewSegment_window [OF c] by (rule maxSegments_window)
  with Cons.IH [of "(fs1, sm1)"] Cons.prems c show ?case by simp
qed

text \<open>With a negative \<^verbatim>\<open>maxSegments\<close> the trimming does not end, and an insertion never
  returns; so it is for the window durations from \<open>2 ^ 30 - 1\<close> to \<open>2 ^ 31 - 2\<close> seconds.\<close>

lemma trimLoop_never_returns:
  assumes "sint m < 0"
  shows "trimLoop m fs segs = None"
proof (cases "trimLoop m fs segs")
  case None
  then show ?thesis .
next
  case (Some r)
  from trimLoop_bound [OF this] assms show ?thesis by simp
qed

lemma createNewSegment_never_returns:
  assumes "sint (maxSegments (snd w)) < 0"
  shows "createNewSegment ts w = None"
proof -
  have "\<And>sm1. maxSegments sm1 = maxSegments (snd w) \<Longrightarrow> trimBuffer (fst w, sm1) = None"
    using assms by (simp add: trimBuffer_def trimLoop_never_returns)
  then show ?thesis
    by (simp add: createNewSegment_def Let_def maxSegments_def)
qed

lemma maxSegments_wraps:
  assumes "1073741823 \<le> sint d" and "sint d \<le> 2147483646"
  shows "sint (maxSegments (setBufferDuration d sm)) < 0"
proof -
  from assms(1) have "(2::int) ^ 31 \<le> 2 * sint d + 2" by simp
  then have "signed_take_bit 31 (2 * sint d + 2) \<le> 2 * sint d + 2 - 2 ^ Suc 31"
    by (rule signed_take_bit_int_less_eq)
  moreover have "2 * sint d + 2 - 2 ^ Suc 31 < 0" using assms(2) by simp
  ultimately have "signed_take_bit 31 (2 * sint d + 2) < 0" by (rule le_less_trans)
  then show ?thesis by (simp only: sint_maxSegments)
qed

lemma insertion_never_returns_beyond:
  assumes "1073741823 \<le> sint d" and "sint d \<le> 2147483646"
  shows "createNewSegment ts (fs, setBufferDuration d sm) = None"
  using maxSegments_wraps [OF assms, of sm] by (intro createNewSegment_never_returns) simp

text \<open>
  Claim C1. For every window duration of \<open>d \<ge> 0\<close> seconds given to \<^verbatim>\<open>setBufferDuration\<close> and
  every sequence of \<^verbatim>\<open>createNewSegment\<close> insertions (from any store when there is at least
  one insertion, from an empty store otherwise), the number of tracked segments afterwards
  is at most \<open>\<lceil>windowDuration / segmentDuration\<rceil> + 2\<close>, both in milliseconds:
  \<^verbatim>\<open>trimBuffer\<close> runs after every insertion and drops the oldest segment while the count
  exceeds \<^verbatim>\<open>maxSegments\<close>. The insertions all return when \<open>d \<le> 2 ^ 30 - 2\<close>; beyond that
  \<^verbatim>\<open>maxSegments\<close> wraps below zero as an \<^verbatim>\<open>Int\<close> and the trimming does not end.
\<close>

theorem store_size_bounded:
  assumes "0 \<le> sint d"
  shows "(sint d \<le> 1073741822 \<longrightarrow>
            store_run (map CreateNewSegment ts) (fs, setBufferDuration d sm) \<noteq> None) \<and>
         (\<forall>fs' sm'. store_run (map CreateNewSegment ts) (fs, setBufferDuration d sm) = Some (fs', sm') \<longrightarrow>
            (ts \<noteq> [] \<or> segments sm = []) \<longrightarrow>
            int (length (segments sm')) \<le>
              \<lceil>real_of_int (sint (bufferDurationMs sm')) / real_of_int (sint SEGMENT_DURATION_MS)\<rceil> + 2)"
proof (intro conjI impI allI)
  assume "sint d \<le> 1073741822"
  with assms have "signed_take_bit 31 (2 * sint d + 2) = 2 * sint d + 2"
    by (intro signed_take_bit_int_eq_self) simp_all
  with assms have "0 \<le> sint (maxSegments (snd (fs, setBufferDuration d sm)))"
    by (simp add: sint_maxSegments)
  then show "store_run (map CreateNewSegment ts) (fs, setBufferDuration d sm) \<noteq> None"
    by (rule run_creates_returns)
next
  fix fs' sm'
  assume r: "store_run (map CreateNewSegment ts) (fs, setBufferDuration d sm) = Some (fs', sm')"
    and n: "ts \<noteq> [] \<or> segments sm = []"
  have le: "sint (maxSegments (setBufferDuration d sm)) \<le> 2 * sint d + 2"
    using assms by (simp add: sint_maxSegments signed_take_bit_int_less_eq_self_iff)
  have b: "bufferDurationMs sm' = bufferDurationMs (setBufferDuration d sm)"
    using run_creates_window [OF r] by simp
  have c: "\<lceil>real_of_int (sint (bufferDurationMs sm')) / real_of_int (sint SEGMENT_DURATION_MS)\<rceil> = 2 * sint d"
    by (simp only: b ceil_window)
  have "int (length (segments sm')) \<le> 2 * sint d + 2"
  proof (cases "ts = []")
    case True
    with r n have "sm' = setBufferDuration d sm" "segments sm = []" by simp_all
    then have "segments sm' = []" by (simp add: setBufferDuration_def)
    with assms show ?thesis by simp
  next
    case False
    with run_creates_size [OF r] le show ?thesis by simp
  qed
  then show "int (length (segments sm')) \<le>
      \<lceil>real_of_int (sint (bufferDurationMs sm')) / real_of_int (sint SEGMENT_DURATION_MS)\<rceil> + 2"
    by (simp only: c)
qed

lemma sint_succ:
  fixes c :: kint
  assumes "sint c < 2147483647"
  shows "sint (c + 1) = sint c + 1"
proof -
  have "- (2 ^ 31) \<le> sint c" using sint_ge [of c] by simp
  with assms have "signed_take_bit 31 (sint c + 1) = sint c + 1"
    by (intro signed_take_bit_int_eq_self) simp_all
  then show ?thesis by (simp add: sint_word_add)
qed

lemma createNewSegment_inv:
  assumes c: "createNewSegment ts w = Some (p, fs', sm')"
    and i: "store_inv n (snd w)" and n: "n < 2147483647"
  shows "store_inv (Suc n) sm'"
proof -
  let ?new = "\<lparr>file_p = segmentDir (snd w) @ ''/'' @ SEGMENT_PREFIX @ int_toString (segmentCounter (snd w)) @ SEGMENT_EXTENSION,
         startTimeMs = ts, durationMs = SEGMENT_DURATION_MS, index = segmentCounter (snd w)\<rparr>"
  let ?all = "segments (snd w) @ [?new]"
  let ?sm1 = "(snd w)\<lparr>segments := ?all, segmentCounter := segmentCounter (snd w) + 1\<rparr>"
  from c obtain segs' where t: "trimLoop (maxSegments ?sm1) (fst w) (segments ?sm1) = Some (fs', segs')"
    and s: "sm' = ?sm1\<lparr>segments := segs'\<rparr>"
    by (auto simp: createNewSegment_def trimBuffer_def Let_def split: option.splits)
  from trimLoop_suffix [OF t] obtain k where k: "segs' = drop k ?all" by auto
  have cnt: "sint (segmentCounter (snd w) + 1) = sint (segmentCounter (snd w)) + 1"
    using i n by (intro sint_succ) (simp add: store_inv_def)
  have srt: "sorted_wrt (<) (map (\<lambda>s. sint (index s)) ?all)"
    using i by (auto simp: store_inv_def sorted_wrt_append)
  have bnd: "\<forall>s\<in>set ?all. sint (index s) < sint (segmentCounter (snd w)) + 1"
    using i by (auto simp: store_inv_def)
  have "sorted_wrt (<) (map (\<lambda>s. sint (index s)) segs')"
    unfolding k drop_map [symmetric] using srt by (rule sorted_wrt_drop)
  moreover have "\<forall>s\<in>set segs'. sint (index s) < sint (segmentCounter (snd w)) + 1"
    using bnd unfolding k by (meson in_set_dropD)
  ultimately show ?thesis
    using i cnt by (simp add: store_inv_def s)
qed

lemma store_step_inv:
  assumes "store_step x w = Some w'" and "store_inv n (snd w)" and "n < 2147483647"
  shows "store_inv (Suc n) (snd w')"
proof (cases x)
  case (CreateNewSegment ts)
  with assms(1) obtain p where "createNewSegment ts w = Some (p, fst w', snd w')"
    by (auto split: option.splits)
  from createNewSegment_inv [OF this assms(2,3)] show ?thesis .
next
  case (SetBufferDuration d)
  with assms show ?thesis by (auto simp: store_inv_def setBufferDuration_def)
next
  case ClearBuffer
  with assms show ?thesis by (auto simp: store_inv_def clearBuffer_def)
next
  case (External fs')
  with assms show ?thesis by (auto simp: store_inv_def)
qed

lemma store_run_inv:
  assumes "store_run xs w = Some w'" and "store_inv n (snd w)" and "n + length xs \<le> 2147483647"
  shows "store_inv (n + length xs) (snd w')"
  using assms
proof (induction xs arbitrary: w n)
  case Nil
  then show ?case by simp
next
  case (Cons x xs)
  from Cons.prems(1) obtain w1 where s: "store_step x w = Some w1" and r: "store_run xs w1 = Some w'"
    by (auto split: option.splits)
  have "store_inv (Suc n) (snd w1)"
    using s Cons.prems(2) by (rule store_step_inv) (use Cons.prems(3) in simp)
  from Cons.IH [OF r this] Cons.prems(3) show ?case by simp
qed

lemma mapNotNull_filter:
  "mapNotNull (\<lambda>x. if P x then Some (g x) else None) xs = map g (filter P xs)"
  by (induction xs) simp_all

text \<open>
  Claim C3. In every state of the Segment Store, \<^verbatim>\<open>freezeBuffer\<close> returns exactly the files
  of the tracked segments whose file exists with a length above zero, in the order of the
  store, which is the order of creation; no missing or zero-length file is returned.
  In every state reached from a new store by fewer than \<open>2 ^ 31\<close> operations (so that the
  \<^verbatim>\<open>Int\<close> counter has not wrapped), the creation indices of the returned segments are
  strictly increasing.
\<close>

theorem freeze_valid_in_creation_order:
  "freezeBuffer fs sm =
     map file_p (filter (\<lambda>s. file_exists fs (file_p s) \<and> 0 < file_length fs (file_p s)) (segments sm)) \<and>
   (\<forall>p\<in>set (freezeBuffer fs sm). file_exists fs p \<and> 0 < file_length fs p) \<and>
   (\<forall>ops fs0 dir. store_run ops (fs0, new_segment_manager dir) = Some (fs, sm) \<and> length ops < 2 ^ 31 \<longrightarrow>
      sorted_wrt (<) (map (\<lambda>s. sint (index s))
        (filter (\<lambda>s. file_exists fs (file_p s) \<and> 0 < file_length fs (file_p s)) (segments sm))))"
proof (intro conjI allI impI)
  show f: "freezeBuffer fs sm =
     map file_p (filter (\<lambda>s. file_exists fs (file_p s) \<and> 0 < file_length fs (file_p s)) (segments sm))"
    unfolding freezeBuffer_def getAllSegments_def by (rule mapNotNull_filter)
  show "\<forall>p\<in>set (freezeBuffer fs sm). file_exists fs p \<and> 0 < file_length fs p"
    unfolding f by auto
next
  fix ops fs0 dir
  assume a: "store_run ops (fs0, new_segment_manager dir) = Some (fs, sm) \<and> length ops < 2 ^ 31"
  have "store_inv 0 (snd (fs0, new_segment_manager dir))"
    by (simp add: store_inv_def new_segment_manager_def)
  with a have "store_inv (0 + length ops) (snd (fs, sm))"
    by (intro store_run_inv [where w = "(fs0, new_segment_manager dir)"]) simp_all
  then have "sorted_wrt (<) (map (\<lambda>s. sint (index s)) (segments sm))"
    by (simp add: store_inv_def)
  then show "sorted_wrt (<) (map (\<lambda>s. sint (index s))
        (filter (\<lambda>s. file_exists fs (file_p s) \<and> 0 < file_length fs (file_p s)) (segments sm)))"
    by (simp add: sorted_wrt_map sorted_wrt_filter)
qed


theorem store_size_bounded_witness:
  "0 \<le> sint (1::kint) \<and>
   (\<exists>fs' sm'. store_run (map CreateNewSegment [0, 1, 2, 3, 4])
        (Map.empty, setBufferDuration 1 (new_segment_manager ''/cache'')) = Some (fs', sm') \<and>
      int (length (segments sm')) \<le> 4)"
proof -
  let ?w = "(Map.empty :: filesystem, setBufferDuration 1 (new_segment_manager ''/cache''))"
  have h: "0 \<le> sint (1::kint)" by simp
  note t = store_size_bounded [OF h, of "[0, 1, 2, 3, 4]" Map.empty "new_segment_manager ''/cache''"]
  from t have "store_run (map CreateNewSegment [0, 1, 2, 3, 4]) ?w \<noteq> None" by simp
  then obtain fs' sm' where r: "store_run (map CreateNewSegment [0, 1, 2, 3, 4]) ?w = Some (fs', sm')"
    by auto
  have "bufferDurationMs sm' = bufferDurationMs (setBufferDuration 1 (new_segment_manager ''/cache''))"
    using run_creates_window [OF r] by simp
  then have c: "\<lceil>real_of_int (sint (bufferDurationMs sm')) / real_of_int (sint SEGMENT_DURATION_MS)\<rceil> = 2 * sint (1::kint)"
    by (simp only: ceil_window)
  from t r have "int (length (segments sm')) \<le>
      \<lceil>real_of_int (sint (bufferDurationMs sm')) / real_of_int (sint SEGMENT_DURATION_MS)\<rceil> + 2"
    by blast
  then have "int (length (segments sm')) \<le> 4" unfolding c by simp
  with r h show ?thesis by blast
qed

theorem freeze_valid_in_creation_order_witness:
  "store_run [CreateNewSegment 10, CreateNewSegment 20, CreateNewSegment 30,
              External [''/cache/video_buffer/segment_0.mp4'' \<mapsto> \<lparr>bytes = [1, 2, 3], media = None\<rparr>,
                        ''/cache/video_buffer/segment_1.mp4'' \<mapsto> \<lparr>bytes = [], media = None\<rparr>,
                        ''/cache/video_buffer/segment_2.mp4'' \<mapsto> \<lparr>bytes = [7], media = None\<rparr>]]
     (Map.empty, new_segment_manager ''/cache'') =
   Some ([''/cache/video_buffer/segment_0.mp4'' \<mapsto> \<lparr>bytes = [1, 2, 3], media = None\<rparr>,
          ''/cache/video_buffer/segment_1.mp4'' \<mapsto> \<lparr>bytes = [], media = None\<rparr>,
          ''/cache/video_buffer/segment_2.mp4'' \<mapsto> \<lparr>bytes = [7], media = None\<rparr>],
         \<lparr>cacheDir = ''/cache'',
          segments = [\<lparr>file_p = ''/cache/video_buffer/segment_0.mp4'', startTimeMs = 10, durationMs = 500, index = 0\<rparr>,
                      \<lparr>file_p = ''/cache/video_buffer/segment_1.mp4'', startTimeMs = 20, durationMs = 500, index = 1\<rparr>,
                      \<lparr>file_p = ''/cache/video_buffer/segment_2.mp4'', startTimeMs = 30, durationMs = 500, index = 2\<rparr>],
          bufferDurationMs = 5000, segmentCounter = 3\<rparr>) \<and>
   freezeBuffer
     [''/cache/video_buffer/segment_0.mp4'' \<mapsto> \<lparr>bytes = [1, 2, 3], media = None\<rparr>,
      ''/cache/video_buffer/segment_1.mp4'' \<mapsto> \<lparr>bytes = [], media = None\<rparr>,
      ''/cache/video_buffer/segment_2.mp4'' \<mapsto> \<lparr>bytes = [7], media = None\<rparr>]
     \<lparr>cacheDir = ''/cache'',
      segments = [\<lparr>file_p = ''/cache/video_buffer/segment_0.mp4'', startTimeMs = 10, durationMs = 500, index = 0\<rparr>,
                  \<lparr>file_p = ''/cache/video_buffer/segment_1.mp4'', startTimeMs = 20, durationMs = 500, index = 1\<rparr>,
                  \<lparr>file_p = ''/cache/video_buffer/segment_2.mp4'', startTimeMs = 30, durationMs = 500, index = 2\<rparr>],
      bufferDurationMs = 5000, segmentCounter = 3\<rparr> =
   [''/cache/video_buffer/segment_0.mp4'', ''/cache/video_buffer/segment_2.mp4''] \<and>
   sorted_wrt (<) (map (\<lambda>s. sint (index s))
     [\<lparr>file_p = ''/cache/video_buffer/segment_0.mp4'', startTimeMs = 10, durationMs = 500, index = 0\<rparr>,
      \<lparr>file_p = ''/cache/video_buffer/segment_2.mp4'', startTimeMs = 30, durationMs = 500, index = 2\<rparr>])"
proof -
  let ?fs = "[''/cache/video_buffer/segment_0.mp4'' \<mapsto> \<lparr>bytes = [1, 2, 3], media = None\<rparr>,
          ''/cache/video_buffer/segment_1.mp4'' \<mapsto> \<lparr>bytes = [], media = None\<rparr>,
          ''/cache/video_buffer/segment_2.mp4'' \<mapsto> \<lparr>bytes = [7], media = None\<rparr>] :: filesystem"
  let ?sm = "\<lparr>cacheDir = ''/cache'',
          segments = [\<lparr>file_p = ''/cache/video_buffer/segment_0.mp4'', startTimeMs = 10, durationMs = 500, index = 0\<rparr>,
                      \<lparr>file_p = ''/cache/video_buffer/segment_1.mp4'', startTimeMs = 20, durationMs = 500, index = 1\<rparr>,
                      \<lparr>file_p = ''/cache/video_buffer/segment_2.mp4'', startTimeMs = 30, durationMs = 500, index = 2\<rparr>],
          bufferDurationMs = 5000, segmentCounter = 3\<rparr>"
  let ?ops = "[CreateNewSegment 10, CreateNewSegment 20, CreateNewSegment 30, External ?fs]"
  have run: "store_run ?ops (Map.empty, new_segment_manager ''/cache'') = Some (?fs, ?sm)"
    by (simp add: new_segment_manager_def createNewSegment_def trimBuffer_def trimLoop.simps maxSegments_def
      long_div_def toInt_def SEGMENT_DURATION_MS_def segmentDir_def SEGMENT_PREFIX_def SEGMENT_EXTENSION_def
      int_toString_def digits.simps digit_def Let_def)
  have kept: "filter (\<lambda>s. file_exists ?fs (file_p s) \<and> 0 < file_length ?fs (file_p s)) (segments ?sm) =
     [\<lparr>file_p = ''/cache/video_buffer/segment_0.mp4'', startTimeMs = 10, durationMs = 500, index = 0\<rparr>,
      \<lparr>file_p = ''/cache/video_buffer/segment_2.mp4'', startTimeMs = 30, durationMs = 500, index = 2\<rparr>]"
    by (simp add: file_exists_def file_length_def)
  note t = freeze_valid_in_creation_order [of ?fs ?sm]
  from t have "freezeBuffer ?fs ?sm =
      map file_p (filter (\<lambda>s. file_exists ?fs (file_p s) \<and> 0 < file_length ?fs (file_p s)) (segments ?sm))"
    by (rule conjunct1)
  then have fr: "freezeBuffer ?fs ?sm =
      [''/cache/video_buffer/segment_0.mp4'', ''/cache/video_buffer/segment_2.mp4'']"
    by (simp only: kept) simp
  from t have "store_run ?ops (Map.empty, new_segment_manager ''/cache'') = Some (?fs, ?sm) \<and> length ?ops < 2 ^ 31 \<longrightarrow>
      sorted_wrt (<) (map (\<lambda>s. sint (index s))
        (filter (\<lambda>s. file_exists ?fs (file_p s) \<and> 0 < file_length ?fs (file_p s)) (segments ?sm)))"
    by blast
  with run have "sorted_wrt (<) (map (\<lambda>s. sint (index s))
        (filter (\<lambda>s. file_exists ?fs (file_p s) \<and> 0 < file_length ?fs (file_p s)) (segments ?sm)))"
    by simp
  then have so: "sorted_wrt (<) (map (\<lambda>s. sint (index s))
     [\<lparr>file_p = ''/cache/video_buffer/segment_0.mp4'', startTimeMs = 10, durationMs = 500, index = 0\<rparr>,
      \<lparr>file_p = ''/cache/video_buffer/segment_2.mp4'', startTimeMs = 30, durationMs = 500, index = 2 :: kint\<rparr>])"
    by (simp only: kept)
  from run fr so show ?thesis by (intro conjI)
qed

section \<open>The Session Controller\<close>

lemma sint_int_div_2:
  assumes "0 \<le> sint a"
  shows "sint (int_div a 2) = sint a div 2"
proof -
  have "sint a < 2 ^ 31" using sint_lt [of a] by simp
  have s: "sint a sdiv 2 = sint a div 2"
    using assms by (simp add: signed_divide_int_def sgn_if)
  have "sint (int_div a 2) = signed_take_bit 31 (sint a div 2)"
    unfolding int_div_def by (simp only: sint_sbintrunc') (simp add: s)
  also have "\<dots> = sint a div 2"
    using assms \<open>sint a < 2 ^ 31\<close> by (intro signed_take_bit_int_eq_self) simp_all
  finally show ?thesis .
qed

lemma sint_minus_half:
  assumes "0 \<le> sint a"
  shows "sint (a - int_div a 2) = sint a - sint a div 2"
proof -
  have "sint a < 2 ^ 31" using sint_lt [of a] by simp
  have "sint (a - int_div a 2) = signed_take_bit 31 (sint a - sint a div 2)"
    by (simp add: sint_word_diff sint_int_div_2 [OF assms])
  also have "\<dots> = sint a - sint a div 2"
    using assms \<open>sint a < 2 ^ 31\<close> by (intro signed_take_bit_int_eq_self) simp_all
  finally show ?thesis .
qed

text \<open>
  Claim C5. For every total clip duration \<open>T \<ge> 2\<close>, \<^verbatim>\<open>setClipDuration(T)\<close> sets the
  pre-window to \<open>\<lfloor>T / 2\<rfloor>\<close> and the post-window to \<open>T\<close> minus the pre-window, so that the
  two add up to \<open>T\<close>, and hands the pre-window to the Segment Store as its window
  duration.
\<close>

theorem clip_duration_split:
  assumes "2 \<le> sint T"
  shows "sint (preBufferSeconds (setClipDuration T r)) = \<lfloor>real_of_int (sint T) / 2\<rfloor> \<and>
         sint (postBufferSeconds (setClipDuration T r)) =
           sint T - sint (preBufferSeconds (setClipDuration T r)) \<and>
         sint (preBufferSeconds (setClipDuration T r)) +
           sint (postBufferSeconds (setClipDuration T r)) = sint T \<and>
         segmentManager (setClipDuration T r) =
           setBufferDuration (preBufferSeconds (setClipDuration T r)) (segmentManager r) \<and>
         sint (bufferDurationMs (segmentManager (setClipDuration T r))) =
           sint (preBufferSeconds (setClipDuration T r)) * 1000"
proof -
  from assms have nn: "0 \<le> sint T" by simp
  have pre: "preBufferSeconds (setClipDuration T r) = int_div T 2"
    by (simp add: setClipDuration_def Let_def)
  have post: "postBufferSeconds (setClipDuration T r) = T - int_div T 2"
    by (simp add: setClipDuration_def Let_def)
  have sm: "segmentManager (setClipDuration T r) = setBufferDuration (int_div T 2) (segmentManager r)"
    by (simp add: setClipDuration_def Let_def)
  have fl: "\<lfloor>real_of_int (sint T) / 2\<rfloor> = sint T div 2"
    by (simp add: floor_divide_of_int_eq [of "sint T" 2, simplified])
  have "bufferDurationMs (setBufferDuration (int_div T 2) (segmentManager r)) = toLong (int_div T 2) * 1000"
    by (simp add: setBufferDuration_def)
  then have w: "sint (bufferDurationMs (setBufferDuration (int_div T 2) (segmentManager r))) = sint (int_div T 2) * 1000"
    by (simp only: sint_toLong_times)
  show ?thesis
    unfolding pre post sm fl w sint_int_div_2 [OF nn] sint_minus_half [OF nn]
    by simp
qed

theorem clip_duration_split_witness:
  "2 \<le> sint (11 :: kint) \<and>
   sint (preBufferSeconds (setClipDuration 11 (new_recorder ''/cache''))) = 5 \<and>
   sint (postBufferSeconds (setClipDuration 11 (new_recorder ''/cache''))) = 6 \<and>
   sint (bufferDurationMs (segmentManager (setClipDuration 11 (new_recorder ''/cache'')))) = 5000"
proof -
  have h: "2 \<le> sint (11 :: kint)" by simp
  have f: "\<lfloor>real_of_int (sint (11 :: kint)) / 2\<rfloor> = 5" by simp
  note t = clip_duration_split [OF h, of "new_recorder ''/cache''", unfolded f]
  from t have p: "sint (preBufferSeconds (setClipDuration 11 (new_recorder ''/cache''))) = 5"
    by (rule conjunct1)
  from t have "sint (postBufferSeconds (setClipDuration 11 (new_recorder ''/cache''))) =
      sint (11 :: kint) - sint (preBufferSeconds (setClipDuration 11 (new_recorder ''/cache'')))"
    by (elim conjE)
  then have q: "sint (postBufferSeconds (setClipDuration 11 (new_recorder ''/cache''))) = 6"
    unfolding p by simp
  from t have "sint (bufferDurationMs (segmentManager (setClipDuration 11 (new_recorder ''/cache'')))) =
      sint (preBufferSeconds (setClipDuration 11 (new_recorder ''/cache''))) * 1000"
    by (elim conjE)
  then have w: "sint (bufferDurationMs (segmentManager (setClipDuration 11 (new_recorder ''/cache'')))) = 5000"
    unfolding p by simp
  from h p q w show ?thesis by (intro conjI)
qed

text \<open>
  Claim C4. Called in any state other than \<^verbatim>\<open>BUFFERING\<close>, \<^verbatim>\<open>triggerCapture\<close> reports the
  error \<^verbatim>\<open>INVALID_STATE\<close> through \<^verbatim>\<open>onError\<close> and changes nothing: the recorder, and so its
  state, \<^verbatim>\<open>preSegments\<close> and \<^verbatim>\<open>postSegments\<close>, is as before.
\<close>

theorem trigger_outside_buffering_rejected:
  "state r \<noteq> BUFFERING \<Longrightarrow>
   triggerCapture t1 t2 fs r =
     (invoke (onError r) (Error ''INVALID_STATE'' ''Camera not in buffering state''), r) \<and>
   state (snd (triggerCapture t1 t2 fs r)) = state r \<and>
   preSegments (snd (triggerCapture t1 t2 fs r)) = preSegments r \<and>
   postSegments (snd (triggerCapture t1 t2 fs r)) = postSegments r"
  by (simp add: triggerCapture_def)

theorem trigger_outside_buffering_rejected_witness:
  "state ((new_recorder ''/cache'')\<lparr>onError := True\<rparr>) \<noteq> BUFFERING \<and>
   triggerCapture 1 2 Map.empty ((new_recorder ''/cache'')\<lparr>onError := True\<rparr>) =
     ([Error ''INVALID_STATE'' ''Camera not in buffering state''],
      (new_recorder ''/cache'')\<lparr>onError := True\<rparr>)"
proof -
  have h: "state ((new_recorder ''/cache'')\<lparr>onError := True\<rparr>) \<noteq> BUFFERING"
    by (simp add: new_recorder_def)
  from trigger_outside_buffering_rejected [OF h, of 1 2 Map.empty] h show ?thesis
    by (simp add: invoke_def new_recorder_def)
qed

lemma stopCamera_returns:
  assumes "\<not> recordingStopThrows cam" and "\<not> unbindThrows cam" and "\<not> shutdownThrows cam"
  shows "\<not> raised (stopCamera v cam w) \<and>
         state (snd (leaves (stopCamera v cam w))) = IDLE \<and>
         segments (segmentManager (snd (leaves (stopCamera v cam w)))) = []"
  using assms by (cases v) (simp_all add: Let_def clearBuffer_def)

lemma stopCamera_twice:
  assumes "\<not> recordingStopThrows cam" and "\<not> unbindThrows cam" and "\<not> shutdownThrows cam"
  shows "stopCamera v cam (leaves (stopCamera v cam w)) = stopCamera v cam w"
  using assms
  by (cases v; cases "segmentRecordingJob (snd w)")
     (simp_all add: Let_def clearBuffer_def cancelJob_def stopCollection_def)

text \<open>
  The variant with \<^verbatim>\<open>LifecycleCameraController\<close> returns with the state \<^verbatim>\<open>IDLE\<close> and an
  empty Segment Store whatever the recording's stop and the unbinding do, and a second
  call changes nothing.
\<close>

lemma stopCamera_controller_guarded:
  assumes "\<not> shutdownThrows cam"
  shows "\<not> raised (stopCamera ControllerRecorder cam w) \<and>
         state (snd (leaves (stopCamera ControllerRecorder cam w))) = IDLE \<and>
         segments (segmentManager (snd (leaves (stopCamera ControllerRecorder cam w)))) = [] \<and>
         stopCamera ControllerRecorder cam (leaves (stopCamera ControllerRecorder cam w)) =
           stopCamera ControllerRecorder cam w"
  using assms
  by (cases "segmentRecordingJob (snd w)")
     (simp_all add: Let_def clearBuffer_def cancelJob_def stopCollection_def)

text \<open>
  The variant with \<^verbatim>\<open>ProcessCameraProvider\<close> leaves by the exception of an unbinding that
  throws, at every call, with the state as it was.
\<close>

lemma stopCamera_provider_unguarded:
  assumes "unbindThrows cam"
  shows "raised (stopCamera ProviderRecorder cam w) \<and>
         state (snd (leaves (stopCamera ProviderRecorder cam w))) = state (snd w) \<and>
         raised (stopCamera ProviderRecorder cam (leaves (stopCamera ProviderRecorder cam w)))"
  using assms by (simp add: Let_def cancelJob_def stopCollection_def)

text \<open>
  Claim C9. \<^verbatim>\<open>stopCamera\<close> is to return from every state, twice in a row, with the state
  \<^verbatim>\<open>IDLE\<close> and an empty Segment Store. Called while buffering with an unbinding that throws
  (\<^verbatim>\<open>unbindAll\<close> off the main thread), the variant with \<^verbatim>\<open>ProcessCameraProvider\<close> leaves by
  the exception, the first time and the second, and the state is still \<^verbatim>\<open>BUFFERING\<close>; the
  variant with \<^verbatim>\<open>LifecycleCameraController\<close>, which catches the error, returns at the same
  input with the state \<^verbatim>\<open>IDLE\<close>.
\<close>

theorem stop_raises_when_unbind_throws:
  "raised (stopCamera ProviderRecorder
     \<lparr>recordingStopThrows = False, unbindThrows = True, shutdownThrows = False\<rparr>
     (Map.empty, (new_recorder ''/cache'')\<lparr>state := BUFFERING\<rparr>)) \<and>
   state (snd (leaves (stopCamera ProviderRecorder
     \<lparr>recordingStopThrows = False, unbindThrows = True, shutdownThrows = False\<rparr>
     (Map.empty, (new_recorder ''/cache'')\<lparr>state := BUFFERING\<rparr>)))) = BUFFERING \<and>
   raised (stopCamera ProviderRecorder
     \<lparr>recordingStopThrows = False, unbindThrows = True, shutdownThrows = False\<rparr>
     (leaves (stopCamera ProviderRecorder
        \<lparr>recordingStopThrows = False, unbindThrows = True, shutdownThrows = False\<rparr>
        (Map.empty, (new_recorder ''/cache'')\<lparr>state := BUFFERING\<rparr>)))) \<and>
   \<not> raised (stopCamera ControllerRecorder
     \<lparr>recordingStopThrows = False, unbindThrows = True, shutdownThrows = False\<rparr>
     (Map.empty, (new_recorder ''/cache'')\<lparr>state := BUFFERING\<rparr>)) \<and>
   state (snd (leaves (stopCamera ControllerRecorder
     \<lparr>recordingStopThrows = False, unbindThrows = True, shutdownThrows = False\<rparr>
     (Map.empty, (new_recorder ''/cache'')\<lparr>state := BUFFERING\<rparr>)))) = IDLE"
  by (simp add: Let_def cancelJob_def stopCollection_def new_recorder_def clearBuffer_def)

lemma resetToIdle_result:
  "state (snd (snd (resetToIdle w))) = IDLE \<and>
   preSegments (snd (snd (resetToIdle w))) = [] \<and>
   postSegments (snd (snd (resetToIdle w))) = [] \<and>
   segments (segmentManager (snd (snd (resetToIdle w)))) = [] \<and>
   fst (resetToIdle w) = invoke (onStateChanged (snd w)) (StateChanged IDLE)"
  by (simp add: resetToIdle_def Let_def clearBuffer_def)

lemma finalizeCaptureWith_idle:
  "state (snd (snd (snd (finalizeCaptureWith muxer w)))) = IDLE \<and>
   preSegments (snd (snd (snd (finalizeCaptureWith muxer w)))) = [] \<and>
   postSegments (snd (snd (snd (finalizeCaptureWith muxer w)))) = [] \<and>
   segments (segmentManager (snd (snd (snd (finalizeCaptureWith muxer w))))) = []"
proof (cases "preSegments (snd (snd w)) @ postSegments (snd (snd w)) = []")
  case True
  then show ?thesis
    by (simp add: finalizeCaptureWith_def Let_def resetToIdle_result)
next
  case False
  then show ?thesis
    by (cases "muxer (fst w, fst (snd w)) (preSegments (snd (snd w)) @ postSegments (snd (snd w)))
                 (currentUsername (snd (snd w)))")
       (simp_all add: finalizeCaptureWith_def Let_def resetToIdle_result)
qed

lemma finalizeCaptureWith_empty:
  assumes "preSegments (snd (snd w)) @ postSegments (snd (snd w)) = []"
  shows "fst (finalizeCaptureWith muxer w) =
           invoke (onStateChanged (snd (snd w))) (StateChanged FINALIZING) @
           invoke (onError (snd (snd w))) (Error ''NO_SEGMENTS'' ''No video segments to save'') @
           invoke (onStateChanged (snd (snd w))) (StateChanged IDLE)"
    and "fst (snd (snd (finalizeCaptureWith muxer w))) = fst (snd w)"
  using assms by (simp_all add: finalizeCaptureWith_def Let_def resetToIdle_result)

lemma finalizeCaptureWith_null:
  assumes "preSegments (snd (snd w)) @ postSegments (snd (snd w)) \<noteq> []"
    and "muxer (fst w, fst (snd w)) (preSegments (snd (snd w)) @ postSegments (snd (snd w)))
           (currentUsername (snd (snd w))) = Returned None w'"
  shows "fst (finalizeCaptureWith muxer w) =
           invoke (onStateChanged (snd (snd w))) (StateChanged FINALIZING) @
           invoke (onError (snd (snd w))) (Error ''MUXER_FAILED'' ''Failed to create final video'') @
           invoke (onStateChanged (snd (snd w))) (StateChanged IDLE)"
  using assms by (auto simp add: finalizeCaptureWith_def Let_def resetToIdle_result)

lemma finalizeCaptureWith_thrown:
  assumes "preSegments (snd (snd w)) @ postSegments (snd (snd w)) \<noteq> []"
    and "muxer (fst w, fst (snd w)) (preSegments (snd (snd w)) @ postSegments (snd (snd w)))
           (currentUsername (snd (snd w))) = Thrown m w'"
  shows "fst (finalizeCaptureWith muxer w) =
           invoke (onStateChanged (snd (snd w))) (StateChanged FINALIZING) @
           invoke (onError (snd (snd w)))
             (Error ''FINALIZE_FAILED'' (case m of Some e \<Rightarrow> e | None \<Rightarrow> ''Unknown error'')) @
           invoke (onStateChanged (snd (snd w))) (StateChanged IDLE)"
  using assms by (auto simp add: finalizeCaptureWith_def Let_def resetToIdle_result)

text \<open>
  Claim C8. When the finalization starts with \<^verbatim>\<open>preSegments + postSegments\<close> empty it
  reports \<^verbatim>\<open>NO_SEGMENTS\<close>; when the muxer returns null it reports \<^verbatim>\<open>MUXER_FAILED\<close>, and
  when an exception leaves the call it reports \<^verbatim>\<open>FINALIZE_FAILED\<close>. Whatever the muxer does,
  the finalization ends in \<^verbatim>\<open>IDLE\<close> with \<^verbatim>\<open>preSegments\<close>, \<^verbatim>\<open>postSegments\<close> and the
  Segment Store cleared: the session is never left in \<^verbatim>\<open>FINALIZING\<close>.
\<close>

theorem finalize_failure_resets_to_idle:
  "(preSegments (snd (snd w)) @ postSegments (snd (snd w)) = [] \<longrightarrow>
      fst (finalizeCaptureWith muxer w) =
        invoke (onStateChanged (snd (snd w))) (StateChanged FINALIZING) @
        invoke (onError (snd (snd w))) (Error ''NO_SEGMENTS'' ''No video segments to save'') @
        invoke (onStateChanged (snd (snd w))) (StateChanged IDLE)) \<and>
   (\<forall>w'. preSegments (snd (snd w)) @ postSegments (snd (snd w)) \<noteq> [] \<and>
      muxer (fst w, fst (snd w)) (preSegments (snd (snd w)) @ postSegments (snd (snd w)))
        (currentUsername (snd (snd w))) = Returned None w' \<longrightarrow>
      fst (finalizeCaptureWith muxer w) =
        invoke (onStateChanged (snd (snd w))) (StateChanged FINALIZING) @
        invoke (onError (snd (snd w))) (Error ''MUXER_FAILED'' ''Failed to create final video'') @
        invoke (onStateChanged (snd (snd w))) (StateChanged IDLE)) \<and>
   (\<forall>m w'. preSegments (snd (snd w)) @ postSegments (snd (snd w)) \<noteq> [] \<and>
      muxer (fst w, fst (snd w)) (preSegments (snd (snd w)) @ postSegments (snd (snd w)))
        (currentUsername (snd (snd w))) = Thrown m w' \<longrightarrow>
      fst (finalizeCaptureWith muxer w) =
        invoke (onStateChanged (snd (snd w))) (StateChanged FINALIZING) @
        invoke (onError (snd (snd w)))
          (Error ''FINALIZE_FAILED'' (case m of Some e \<Rightarrow> e | None \<Rightarrow> ''Unknown error'')) @
        invoke (onStateChanged (snd (snd w))) (StateChanged IDLE)) \<and>
   state (snd (snd (snd (finalizeCaptureWith muxer w)))) = IDLE \<and>
   preSegments (snd (snd (snd (finalizeCaptureWith muxer w)))) = [] \<and>
   postSegments (snd (snd (snd (finalizeCaptureWith muxer w)))) = [] \<and>
   segments (segmentManager (snd (snd (snd (finalizeCaptureWith muxer w))))) = [] \<and>
   state (snd (snd (snd (finalizeCapture env w)))) = IDLE \<and>
   preSegments (snd (snd (snd (finalizeCapture env w)))) = [] \<and>
   postSegments (snd (snd (snd (finalizeCapture env w)))) = [] \<and>
   segments (segmentManager (snd (snd (snd (finalizeCapture env w))))) = []"
  using finalizeCaptureWith_idle [of muxer w] finalizeCaptureWith_idle [of "videoMuxer env" w]
    finalizeCaptureWith_empty(1) [of w muxer] finalizeCaptureWith_null [of w muxer]
    finalizeCaptureWith_thrown [of w muxer]
  unfolding finalizeCapture_def by blast


theorem finalize_failure_resets_to_idle_witness:
  "fst (finalizeCaptureWith (\<lambda>w segs u. Thrown None w)
          (Map.empty, Map.empty,
           (new_recorder ''/cache'')\<lparr>state := CAPTURING_POST, onError := True\<rparr>)) =
     [Error ''NO_SEGMENTS'' ''No video segments to save''] \<and>
   fst (finalizeCaptureWith (\<lambda>w segs u. Thrown None w)
          (Map.empty, Map.empty,
           (new_recorder ''/cache'')\<lparr>state := CAPTURING_POST, onError := True,
                                      postSegments := [''/cache/video_buffer/segment_0.mp4'']\<rparr>)) =
     [Error ''FINALIZE_FAILED'' ''Unknown error''] \<and>
   fst (finalizeCaptureWith
          (videoMuxer \<lparr>formattedDate = ''20260101_000000'', contextCacheDir = ''/cache'',
                        sdkAtLeastQ = True, resolverInsert = None, outputStreamOpens = True,
                        mp4Bytes = (\<lambda>ts. [])\<rparr>)
          (Map.empty, Map.empty,
           (new_recorder ''/cache'')\<lparr>state := CAPTURING_POST, onError := True,
                                      postSegments := [''/cache/video_buffer/segment_0.mp4'']\<rparr>)) =
     [Error ''MUXER_FAILED'' ''Failed to create final video''] \<and>
   state (snd (snd (snd (finalizeCaptureWith (\<lambda>w segs u. Thrown None w)
          (Map.empty, Map.empty,
           (new_recorder ''/cache'')\<lparr>state := CAPTURING_POST, onError := True,
                                      postSegments := [''/cache/video_buffer/segment_0.mp4'']\<rparr>))))) = IDLE"
proof -
  let ?env = "\<lparr>formattedDate = ''20260101_000000'', contextCacheDir = ''/cache'',
                sdkAtLeastQ = True, resolverInsert = None, outputStreamOpens = True,
                mp4Bytes = (\<lambda>ts. [])\<rparr> :: platform"
  let ?thrower = "(\<lambda>w segs u. Thrown None w) ::
     filesystem \<times> media_store \<Rightarrow> path list \<Rightarrow> string \<Rightarrow> mux_outcome"
  let ?w0 = "(Map.empty, Map.empty,
           (new_recorder ''/cache'')\<lparr>state := CAPTURING_POST, onError := True\<rparr>) :: world"
  let ?w1 = "(Map.empty, Map.empty,
           (new_recorder ''/cache'')\<lparr>state := CAPTURING_POST, onError := True,
                                      postSegments := [''/cache/video_buffer/segment_0.mp4'']\<rparr>) :: world"
  have e0: "preSegments (snd (snd ?w0)) @ postSegments (snd (snd ?w0)) = []"
    by (simp add: new_recorder_def)
  have ne: "preSegments (snd (snd ?w1)) @ postSegments (snd (snd ?w1)) \<noteq> []"
    by (simp add: new_recorder_def)
  have l: "onError (snd (snd ?w0))" "\<not> onStateChanged (snd (snd ?w0))"
    "onError (snd (snd ?w1))" "\<not> onStateChanged (snd (snd ?w1))"
    by (simp_all add: new_recorder_def)
  have a: "fst (finalizeCaptureWith ?thrower ?w0) = [Error ''NO_SEGMENTS'' ''No video segments to save'']"
    using finalize_failure_resets_to_idle [of ?w0 ?thrower ?env] e0
    by (simp only: l invoke_def if_True if_False) simp
  have th: "?thrower (fst ?w1, fst (snd ?w1)) (preSegments (snd (snd ?w1)) @ postSegments (snd (snd ?w1)))
        (currentUsername (snd (snd ?w1))) = Thrown None (Map.empty, Map.empty)"
    by simp
  have b: "fst (finalizeCaptureWith ?thrower ?w1) = [Error ''FINALIZE_FAILED'' ''Unknown error'']"
    using finalize_failure_resets_to_idle [of ?w1 ?thrower ?env] ne th
    by (simp only: l invoke_def if_True if_False) auto
  have nu: "videoMuxer ?env (fst ?w1, fst (snd ?w1)) (preSegments (snd (snd ?w1)) @ postSegments (snd (snd ?w1)))
        (currentUsername (snd (snd ?w1))) =
      Returned None (file_delete Map.empty ''/cache/temp_output_20260101_000000.mp4'', Map.empty)"
    by (simp add: videoMuxer_def concatenateSegments_def tempOutputPath_def copyTo_def file_exists_def new_recorder_def Let_def)
  have c: "fst (finalizeCaptureWith (videoMuxer ?env) ?w1) =
      [Error ''MUXER_FAILED'' ''Failed to create final video'']"
    using finalize_failure_resets_to_idle [of ?w1 "videoMuxer ?env" ?env] ne nu
    by (simp only: l invoke_def if_True if_False) auto
  have d: "state (snd (snd (snd (finalizeCaptureWith ?thrower ?w1)))) = IDLE"
    using finalize_failure_resets_to_idle [of ?w1 ?thrower ?env] by blast
  from a b c d show ?thesis by (intro conjI)
qed


section \<open>The Concatenator\<close>

lemma copyTo_ok:
  assumes "copyTo fs source target = (True, fs')"
  shows "\<exists>f. fs source = Some f \<and> fs' target = Some f"
  using assms
  by (auto simp: copyTo_def file_exists_def file_delete_def Let_def split: if_splits option.splits)

lemma copyTo_distinct:
  assumes "fs source = Some f" and "source \<noteq> target"
  shows "fst (copyTo fs source target)"
  using assms
  by (auto simp: copyTo_def file_exists_def file_delete_def Let_def split: if_splits option.splits)

lemma concatenateSegments_single:
  "concatenateSegments env (fs, ms) [seg] user =
     (let c = copyTo fs seg (tempOutputPath env) in
      if \<not> fst c then (None, file_delete (snd c) (tempOutputPath env), ms)
      else (let saved = saveToMediaStore env (snd c, ms) (tempOutputPath env)
                          (user @ ''_'' @ formattedDate env @ ''.mp4'')
            in (fst saved, file_delete (snd c) (tempOutputPath env), snd saved)))"
  by (simp add: concatenateSegments_def Let_def)

text \<open>
  Claim C6. Given exactly one segment, whenever \<^verbatim>\<open>concatenateSegments\<close> returns the
  reference of an output whose stream the sink opened, the bytes stored there are those
  of the input segment file, copied without parsing; and it does return one when the
  file exists, is not the temporary output itself, and the sink accepts the insert.
\<close>

theorem single_segment_copied_verbatim:
  "(\<forall>uri fs' ms'. concatenateSegments env (fs, ms) [seg] user = (Some uri, fs', ms') \<and>
       outputStreamOpens env \<longrightarrow>
       (\<exists>f e. fs seg = Some f \<and> ms' uri = Some e \<and> content e = bytes f)) \<and>
   (\<forall>f uri. fs seg = Some f \<and> seg \<noteq> tempOutputPath env \<and> resolverInsert env = Some uri \<longrightarrow>
       fst (concatenateSegments env (fs, ms) [seg] user) = Some uri)"
proof (intro conjI allI impI)
  fix uri fs' ms'
  assume a: "concatenateSegments env (fs, ms) [seg] user = (Some uri, fs', ms') \<and> outputStreamOpens env"
  obtain ok fs1 where c: "copyTo fs seg (tempOutputPath env) = (ok, fs1)" by force
  from a c have ok by (auto simp: concatenateSegments_single Let_def split: if_splits)
  with c have "copyTo fs seg (tempOutputPath env) = (True, fs1)" by simp
  from copyTo_ok [OF this] obtain f where f: "fs seg = Some f" "fs1 (tempOutputPath env) = Some f"
    by blast
  from a c \<open>ok\<close> have "saveToMediaStore env (fs1, ms) (tempOutputPath env)
      (user @ ''_'' @ formattedDate env @ ''.mp4'') = (Some uri, ms')"
    by (auto simp: concatenateSegments_single Let_def prod_eq_iff)
  with a f have "\<exists>e. ms' uri = Some e \<and> content e = bytes f"
    by (auto simp: saveToMediaStore_def Let_def split: option.splits if_splits)
  with f show "\<exists>f e. fs seg = Some f \<and> ms' uri = Some e \<and> content e = bytes f" by blast
next
  fix f uri
  assume a: "fs seg = Some f \<and> seg \<noteq> tempOutputPath env \<and> resolverInsert env = Some uri"
  then have "fst (copyTo fs seg (tempOutputPath env))" by (intro copyTo_distinct) auto
  moreover obtain ok fs1 where c: "copyTo fs seg (tempOutputPath env) = (ok, fs1)" by force
  ultimately have "copyTo fs seg (tempOutputPath env) = (True, fs1)" by simp
  from copyTo_ok [OF this] this a
  show "fst (concatenateSegments env (fs, ms) [seg] user) = Some uri"
    by (auto simp: concatenateSegments_single saveToMediaStore_def Let_def)
qed

theorem single_segment_copied_verbatim_witness:
  "\<exists>fs' ms' e.
     concatenateSegments
       \<lparr>formattedDate = ''20260101_000000'', contextCacheDir = ''/cache'', sdkAtLeastQ = True,
        resolverInsert = Some ''content://media/external/video/media/1'', outputStreamOpens = True,
        mp4Bytes = (\<lambda>ts. [])\<rparr>
       ([''/cache/video_buffer/segment_0.mp4'' \<mapsto> \<lparr>bytes = [0, 0, 0, 24, 102], media = None\<rparr>], Map.empty)
       [''/cache/video_buffer/segment_0.mp4''] ''user'' =
     (Some ''content://media/external/video/media/1'', fs', ms') \<and>
     ms' ''content://media/external/video/media/1'' = Some e \<and> content e = [0, 0, 0, 24, 102]"
proof -
  let ?env = "\<lparr>formattedDate = ''20260101_000000'', contextCacheDir = ''/cache'', sdkAtLeastQ = True,
        resolverInsert = Some ''content://media/external/video/media/1'', outputStreamOpens = True,
        mp4Bytes = (\<lambda>ts. [])\<rparr> :: platform"
  let ?seg = "''/cache/video_buffer/segment_0.mp4''"
  let ?file = "\<lparr>bytes = [0, 0, 0, 24, 102], media = None\<rparr> :: disk_file"
  let ?fs = "[?seg \<mapsto> ?file] :: filesystem"
  let ?uri = "''content://media/external/video/media/1''"
  note t = single_segment_copied_verbatim [of ?env ?fs Map.empty ?seg "''user''"]
  have h: "?fs ?seg = Some ?file \<and> ?seg \<noteq> tempOutputPath ?env \<and> resolverInsert ?env = Some ?uri"
    by (simp add: tempOutputPath_def)
  with t have "fst (concatenateSegments ?env (?fs, Map.empty) [?seg] ''user'') = Some ?uri"
    by blast
  then obtain fs' ms' where r: "concatenateSegments ?env (?fs, Map.empty) [?seg] ''user'' = (Some ?uri, fs', ms')"
    by (metis prod.collapse)
  have "outputStreamOpens ?env" by simp
  with t r obtain f e where "?fs ?seg = Some f" "ms' ?uri = Some e" "content e = bytes f"
    by blast
  then have "ms' ?uri = Some e \<and> content e = [0, 0, 0, 24, 102]" by auto
  with r show ?thesis by blast
qed



lemma muxLoop_append: "muxLoop fs (xs @ ys) mx = muxLoop fs ys (muxLoop fs xs mx)"
  by (induction xs arbitrary: mx) simp_all

lemma processSegment_skips: "\<not> readable fs p \<Longrightarrow> processSegment fs p mx = mx"
  by (auto simp: readable_def usable_def processSegment_def)

lemma muxLoop_filter_usable: "muxLoop fs (filter (usable fs) segs) mx = muxLoop fs segs mx"
  by (induction segs arbitrary: mx) (simp_all add: processSegment_skips readable_def)

lemma muxLoop_filter_readable: "muxLoop fs (filter (readable fs) segs) mx = muxLoop fs segs mx"
  by (induction segs arbitrary: mx) (simp_all add: processSegment_skips)

lemma processSegment_other_file:
  "p \<noteq> out \<Longrightarrow> processSegment (fs(out \<mapsto> f)) p mx = processSegment fs p mx"
  by (simp add: processSegment_def file_exists_def file_length_def setDataSource_def)

lemma muxLoop_other_file:
  "out \<notin> set segs \<Longrightarrow> muxLoop (fs(out \<mapsto> f)) segs mx = muxLoop fs segs mx"
  by (induction segs arbitrary: mx) (auto simp: processSegment_other_file)

lemma concatenateWithMuxer_loop:
  "out \<notin> set segs \<Longrightarrow> snd (concatenateWithMuxer env fs segs out) = muxLoop fs segs new_muxing"
  by (simp add: concatenateWithMuxer_def Let_def muxLoop_other_file)

lemma concatenateWithMuxer_filter:
  assumes "out \<notin> set segs"
  shows "concatenateWithMuxer env fs (filter (usable fs) segs) out = concatenateWithMuxer env fs segs out"
proof -
  have "out \<notin> set (filter (usable fs) segs)" using assms by simp
  then show ?thesis
    using assms by (simp add: concatenateWithMuxer_def muxLoop_other_file muxLoop_filter_usable Let_def)
qed

lemma copyLoop_eq:
  "copyLoop i off ss acc =
     (fold (\<lambda>s m. laterOf m (sampleTime s + off)) ss (fst acc), snd acc @ map (writtenAs i off) ss)"
proof (induction ss arbitrary: acc)
  case Nil
  then show ?case by simp
next
  case (Cons s ss)
  then show ?case by (simp add: Let_def writtenAs_def laterOf_def)
qed

lemma copyTrack_eq:
  "copyTrack trks i pre off mx =
     (nextOffset off (selectTrack pre trks),
      mx\<lparr>writtenSamples := writtenSamples mx @ map (writtenAs i off) (selectTrack pre trks)\<rparr>)"
  by (simp add: copyTrack_def copyLoop_eq nextOffset_def Let_def)

lemma writtenAs_simps [simp]:
  "fst (writtenAs i off s) = i"
  "presentationTimeUs (snd (writtenAs i off s)) = sampleTime s + off"
  "size_b (snd (writtenAs i off s)) = int (sampleSize s)"
  "flags (snd (writtenAs i off s)) = sampleFlags s"
  by (simp_all add: writtenAs_def)

lemma setupTracks_keeps:
  "lastVideoPts (setupTracks trks mx) = lastVideoPts mx \<and>
   lastAudioPts (setupTracks trks mx) = lastAudioPts mx \<and>
   writtenSamples (setupTracks trks mx) = writtenSamples mx \<and>
   muxerStarted (setupTracks trks mx) = muxerStarted mx"
  by (induction trks arbitrary: mx) (simp_all add: addTrack_def split: option.splits)

lemma startsWith_kinds:
  "startsWith m (mimePrefixOf k) \<Longrightarrow> startsWith m (mimePrefixOf k') \<Longrightarrow> k = k'"
  by (cases k; cases k'; cases m) (auto simp: startsWith_def)

lemma processSegment_readable:
  assumes "usable fs p" and "setDataSource fs p = Some trks"
  shows "processSegment fs p mx =
    (let mx1 = (if \<not> muxerStarted mx then (setupTracks trks mx)\<lparr>muxerStarted := True\<rparr> else mx);
         vs = (if 0 \<le> videoTrackIndex mx1 then selectTrack ''video/'' trks else []);
         as = (if 0 \<le> audioTrackIndex mx1 then selectTrack ''audio/'' trks else [])
     in mx1\<lparr>lastVideoPts := (if 0 \<le> videoTrackIndex mx1
                               then nextOffset (lastVideoPts mx1) (selectTrack ''video/'' trks)
                               else lastVideoPts mx1),
             lastAudioPts := (if 0 \<le> audioTrackIndex mx1
                               then nextOffset (lastAudioPts mx1) (selectTrack ''audio/'' trks)
                               else lastAudioPts mx1),
             writtenSamples := writtenSamples mx1 @
                map (writtenAs (videoTrackIndex mx1) (lastVideoPts mx1)) vs @
                map (writtenAs (audioTrackIndex mx1) (lastAudioPts mx1)) as\<rparr>)"
  using assms
  by (simp add: processSegment_def usable_def copyTrack_eq Let_def)

lemma trk_inv_new: "trk_inv new_muxing"
proof -
  have "\<not> 0 \<le> trackIndexOf k new_muxing \<and> trackIndexOf k new_muxing < 0 \<and> lastPtsOf k new_muxing = 0" for k
    by (cases k) (simp_all add: new_muxing_def)
  moreover have "addedTracks new_muxing = []" "writtenSamples new_muxing = []"
    by (simp_all add: new_muxing_def)
  ultimately show ?thesis unfolding trk_inv_def reg_inv_def by simp
qed

lemma reg_inv_distinct:
  assumes "reg_inv mx" and "0 \<le> trackIndexOf k mx" and "trackIndexOf k mx = trackIndexOf k' mx"
  shows "k = k'"
proof -
  from assms(1,2) have a: "startsWith (addedTracks mx ! nat (trackIndexOf k mx)) (mimePrefixOf k)"
    unfolding reg_inv_def by blast
  from assms(2,3) have "0 \<le> trackIndexOf k' mx" by simp
  with assms(1) have "startsWith (addedTracks mx ! nat (trackIndexOf k' mx)) (mimePrefixOf k')"
    unfolding reg_inv_def by blast
  then have b: "startsWith (addedTracks mx ! nat (trackIndexOf k mx)) (mimePrefixOf k')"
    unfolding assms(3) .
  from a b show ?thesis by (rule startsWith_kinds)
qed

lemma reg_inv_add:
  assumes r: "reg_inv mx" and n: "trackIndexOf k mx < 0" and m: "startsWith m (mimePrefixOf k)"
    and mx': "addedTracks mx' = addedTracks mx @ [m]"
      "trackIndexOf k mx' = int (length (addedTracks mx))"
      "\<And>k'. k' \<noteq> k \<Longrightarrow> trackIndexOf k' mx' = trackIndexOf k' mx"
  shows "reg_inv mx'"
  unfolding reg_inv_def
proof (intro conjI allI impI)
  fix k' assume p: "0 \<le> trackIndexOf k' mx'"
  show "trackIndexOf k' mx' < int (length (addedTracks mx'))"
  proof (cases "k' = k")
    case True
    then show ?thesis by (simp add: mx')
  next
    case False
    with p mx'(3) have "0 \<le> trackIndexOf k' mx" by simp
    with r have "trackIndexOf k' mx < int (length (addedTracks mx))" by (simp add: reg_inv_def)
    with False show ?thesis by (simp add: mx')
  qed
  show "startsWith (addedTracks mx' ! nat (trackIndexOf k' mx')) (mimePrefixOf k')"
  proof (cases "k' = k")
    case True
    with m show ?thesis by (simp add: mx')
  next
    case False
    with p mx'(3) have q: "0 \<le> trackIndexOf k' mx" by simp
    with r have "trackIndexOf k' mx < int (length (addedTracks mx))"
      "startsWith (addedTracks mx ! nat (trackIndexOf k' mx)) (mimePrefixOf k')"
      by (simp_all add: reg_inv_def)
    moreover from this q have "nat (trackIndexOf k' mx) < length (addedTracks mx)" by simp
    ultimately show ?thesis using False by (simp add: mx' nth_append)
  qed
next
  fix i assume i: "i < length (addedTracks mx')"
  show "\<exists>k'. trackIndexOf k' mx' = int i"
  proof (cases "i < length (addedTracks mx)")
    case True
    with r obtain k' where k': "trackIndexOf k' mx = int i" by (auto simp: reg_inv_def)
    with n have "k' \<noteq> k" by auto
    from mx'(3) [OF this] k' have "trackIndexOf k' mx' = int i" by simp
    then show ?thesis ..
  next
    case False
    with i have "i = length (addedTracks mx)" by (simp add: mx')
    with mx'(2) have "trackIndexOf k mx' = int i" by simp
    then show ?thesis ..
  qed
qed

lemma setupTracks_reg_inv: "reg_inv mx \<Longrightarrow> reg_inv (setupTracks trks mx)"
proof (induction trks arbitrary: mx)
  case Nil
  then show ?case by simp
next
  case (Cons t trks)
  show ?case
  proof (cases "mime t")
    case None
    with Cons show ?thesis by simp
  next
    case (Some m)
    let ?v = "(snd (addTrack m mx))\<lparr>videoTrackIndex := fst (addTrack m mx)\<rparr>"
    let ?a = "(snd (addTrack m mx))\<lparr>audioTrackIndex := fst (addTrack m mx)\<rparr>"
    have v: "reg_inv ?v" if "startsWith m ''video/''" "videoTrackIndex mx < 0"
    proof (rule reg_inv_add [OF Cons.prems, of VideoTrack m])
      show "trackIndexOf VideoTrack mx < 0" using that by simp
      show "startsWith m (mimePrefixOf VideoTrack)" using that by simp
      show "addedTracks ?v = addedTracks mx @ [m]" by (simp add: addTrack_def)
      show "trackIndexOf VideoTrack ?v = int (length (addedTracks mx))" by (simp add: addTrack_def)
      show "trackIndexOf k' ?v = trackIndexOf k' mx" if "k' \<noteq> VideoTrack" for k'
        using that by (cases k') (simp_all add: addTrack_def)
    qed
    have a: "reg_inv ?a" if "startsWith m ''audio/''" "audioTrackIndex mx < 0"
    proof (rule reg_inv_add [OF Cons.prems, of AudioTrack m])
      show "trackIndexOf AudioTrack mx < 0" using that by simp
      show "startsWith m (mimePrefixOf AudioTrack)" using that by simp
      show "addedTracks ?a = addedTracks mx @ [m]" by (simp add: addTrack_def)
      show "trackIndexOf AudioTrack ?a = int (length (addedTracks mx))" by (simp add: addTrack_def)
      show "trackIndexOf k' ?a = trackIndexOf k' mx" if "k' \<noteq> AudioTrack" for k'
        using that by (cases k') (simp_all add: addTrack_def)
    qed
    from Some v a Cons.IH Cons.prems show ?thesis by simp
  qed
qed

lemma setupTracks_stable:
  "0 \<le> trackIndexOf k mx \<Longrightarrow> trackIndexOf k (setupTracks trks mx) = trackIndexOf k mx"
proof (induction trks arbitrary: mx)
  case Nil
  then show ?case by simp
next
  case (Cons t trks)
  then show ?case
    by (cases k; cases "mime t") (auto simp: addTrack_def)
qed

lemma setupTracks_registers:
  "0 \<le> trackIndexOf k (setupTracks trks mx) \<longleftrightarrow> 0 \<le> trackIndexOf k mx \<or> hasTrack k trks"
proof (induction trks arbitrary: mx)
  case Nil
  then show ?case by (simp add: hasTrack_def)
next
  case (Cons t trks)
  show ?case
  proof (cases "0 \<le> trackIndexOf k mx")
    case True
    from setupTracks_stable [OF this, of "t # trks"] True show ?thesis by simp
  next
    case neg: False
    show ?thesis
    proof (cases "mime t")
      case None
      with Cons [of mx] show ?thesis by (simp add: hasTrack_def)
    next
      case (Some m)
      show ?thesis
      proof (cases "startsWith m (mimePrefixOf k)")
        case True
        let ?mx' = "(case k of
            VideoTrack \<Rightarrow> (snd (addTrack m mx))\<lparr>videoTrackIndex := fst (addTrack m mx)\<rparr>
          | AudioTrack \<Rightarrow> (snd (addTrack m mx))\<lparr>audioTrackIndex := fst (addTrack m mx)\<rparr>)"
        have s: "setupTracks (t # trks) mx = setupTracks trks ?mx'"
          using Some True neg startsWith_kinds [of m VideoTrack AudioTrack] by (cases k) auto
        have "0 \<le> trackIndexOf k ?mx'" by (cases k) (simp_all add: addTrack_def)
        from setupTracks_stable [OF this, of trks] this have "0 \<le> trackIndexOf k (setupTracks (t # trks) mx)"
          unfolding s by simp
        moreover have "hasTrack k (t # trks)" using Some True by (simp add: hasTrack_def)
        ultimately show ?thesis by simp
      next
        case False
        have h: "hasTrack k (t # trks) = hasTrack k trks" using Some False by (simp add: hasTrack_def)
        have "\<exists>mx'. setupTracks (t # trks) mx = setupTracks trks mx' \<and> trackIndexOf k mx' = trackIndexOf k mx"
          using Some False by (cases k) (auto simp: addTrack_def)
        then obtain mx' where "setupTracks (t # trks) mx = setupTracks trks mx'"
          "trackIndexOf k mx' = trackIndexOf k mx" by blast
        with Cons [of mx'] h show ?thesis by simp
      qed
    qed
  qed
qed

lemma trackIndexOf_cong:
  "videoTrackIndex a = videoTrackIndex b \<Longrightarrow> audioTrackIndex a = audioTrackIndex b \<Longrightarrow>
   trackIndexOf k a = trackIndexOf k b"
  by (cases k) simp_all

lemma reg_inv_cong:
  assumes "addedTracks a = addedTracks b" and "videoTrackIndex a = videoTrackIndex b"
    and "audioTrackIndex a = audioTrackIndex b"
  shows "reg_inv a = reg_inv b"
  unfolding reg_inv_def assms(1) trackIndexOf_cong [OF assms(2,3)] ..

lemma readable_cases:
  assumes "readable fs p"
  obtains trks where "usable fs p" and "setDataSource fs p = Some trks"
  using assms by (auto simp: readable_def)

lemma readSamples_readable:
  "usable fs p \<Longrightarrow> setDataSource fs p = Some trks \<Longrightarrow>
   readSamples fs k p = selectTrack (mimePrefixOf k) trks"
  by (simp add: readSamples_def segmentSamples_def)

lemma started_after:
  assumes "usable fs p" and "setDataSource fs p = Some trks"
  shows "muxerStarted (processSegment fs p mx)"
  by (simp add: processSegment_readable [OF assms] Let_def setupTracks_keeps)

lemma index_after:
  assumes "usable fs p" and "setDataSource fs p = Some trks"
  shows "trackIndexOf k (processSegment fs p mx) =
           (if muxerStarted mx then trackIndexOf k mx else trackIndexOf k (setupTracks trks mx))"
  by (cases k) (simp_all add: processSegment_readable [OF assms] Let_def)

lemma added_after:
  assumes "usable fs p" and "setDataSource fs p = Some trks"
  shows "addedTracks (processSegment fs p mx) =
           (if muxerStarted mx then addedTracks mx else addedTracks (setupTracks trks mx))"
  by (simp add: processSegment_readable [OF assms] Let_def)

lemma lastPts_after:
  assumes "usable fs p" and "setDataSource fs p = Some trks"
  shows "lastPtsOf k (processSegment fs p mx) =
           (if 0 \<le> trackIndexOf k (processSegment fs p mx)
            then nextOffset (lastPtsOf k mx) (readSamples fs k p) else lastPtsOf k mx)"
  by (cases k)
     (simp_all add: processSegment_readable [OF assms] Let_def setupTracks_keeps
        readSamples_readable [OF assms])

lemma written_after:
  assumes "usable fs p" and "setDataSource fs p = Some trks"
  shows "writtenSamples (processSegment fs p mx) =
           writtenSamples mx @ writes fs p mx VideoTrack @ writes fs p mx AudioTrack"
  by (simp add: writes_def processSegment_readable [OF assms] Let_def setupTracks_keeps
        readSamples_readable [OF assms])

lemma trk_inv_step:
  assumes "trk_inv mx"
  shows "trk_inv (processSegment fs p mx)"
proof (cases "readable fs p")
  case False
  with assms show ?thesis by (simp add: processSegment_skips)
next
  case True
  then obtain trks where u: "usable fs p" and d: "setDataSource fs p = Some trks"
    by (rule readable_cases)
  let ?mx1 = "if muxerStarted mx then mx else setupTracks trks mx"
  from assms have "reg_inv mx" by (simp add: trk_inv_def)
  then have "reg_inv ?mx1" by (simp add: setupTracks_reg_inv)
  moreover have "reg_inv (processSegment fs p mx) = reg_inv ?mx1"
  proof (rule reg_inv_cong)
    show "addedTracks (processSegment fs p mx) = addedTracks ?mx1"
      by (simp add: added_after [OF u d])
    show "videoTrackIndex (processSegment fs p mx) = videoTrackIndex ?mx1"
      using index_after [OF u d, of VideoTrack mx] by simp
    show "audioTrackIndex (processSegment fs p mx) = audioTrackIndex ?mx1"
      using index_after [OF u d, of AudioTrack mx] by simp
  qed
  ultimately show ?thesis using started_after [OF u d, of mx] by (simp add: trk_inv_def)
qed

lemma muxLoop_trk_inv: "trk_inv mx \<Longrightarrow> trk_inv (muxLoop fs segs mx)"
  by (induction segs arbitrary: mx) (simp_all add: trk_inv_step)

lemma filter_writtenAs:
  "filter (\<lambda>w. fst w = j) (map (writtenAs i off) ss) = (if i = j then map (writtenAs i off) ss else [])"
  by (simp add: filter_map comp_def)

lemma filter_writes:
  assumes "reg_inv (processSegment fs p mx)"
  shows "filter (\<lambda>w. fst w = trackIndexOf k (processSegment fs p mx)) (writes fs p mx k') =
           (if k' = k then writes fs p mx k else [])"
proof (cases "k' = k")
  case True
  then show ?thesis by (simp add: writes_def filter_writtenAs)
next
  case False
  show ?thesis
  proof (cases "0 \<le> trackIndexOf k' (processSegment fs p mx)")
    case neg: False
    with False show ?thesis by (simp add: writes_def)
  next
    case True
    from reg_inv_distinct [OF assms True] False
    have "trackIndexOf k' (processSegment fs p mx) \<noteq> trackIndexOf k (processSegment fs p mx)"
      by blast
    with False True show ?thesis by (simp add: writes_def filter_writtenAs)
  qed
qed

lemma filter_after:
  assumes "usable fs p" and "setDataSource fs p = Some trks" and "trk_inv mx"
  shows "filter (\<lambda>w. fst w = trackIndexOf k (processSegment fs p mx))
           (writtenSamples (processSegment fs p mx)) =
         filter (\<lambda>w. fst w = trackIndexOf k (processSegment fs p mx)) (writtenSamples mx) @
         writes fs p mx k"
proof -
  from trk_inv_step [OF assms(3), of fs p] have r: "reg_inv (processSegment fs p mx)"
    by (simp add: trk_inv_def)
  show ?thesis
    unfolding written_after [OF assms(1,2)] filter_append filter_writes [OF r]
    by (cases k) simp_all
qed

lemma asSample_writtenAs: "asSample (writtenAs i off s) = shifted off s"
  by (simp add: asSample_def writtenAs_def shifted_def)

lemma trackSamples_after:
  assumes "usable fs p" and "setDataSource fs p = Some trks" and "trk_inv mx"
    and "muxerStarted mx"
  shows "trackSamples k (processSegment fs p mx) =
           trackSamples k mx @
           (if 0 \<le> trackIndexOf k mx then map (shifted (lastPtsOf k mx)) (readSamples fs k p) else [])"
proof -
  have i: "trackIndexOf k (processSegment fs p mx) = trackIndexOf k mx"
    using assms(4) by (simp add: index_after [OF assms(1,2)])
  show ?thesis
    unfolding trackSamples_def filter_after [OF assms(1-3)]
    by (simp add: i writes_def comp_def asSample_writtenAs)
qed

lemma track_run:
  assumes "trk_inv mx" and "muxerStarted mx"
  shows "muxerStarted (muxLoop fs segs mx) \<and>
         addedTracks (muxLoop fs segs mx) = addedTracks mx \<and>
         trackIndexOf k (muxLoop fs segs mx) = trackIndexOf k mx \<and>
         lastPtsOf k (muxLoop fs segs mx) =
           (if 0 \<le> trackIndexOf k mx
            then offsetAfter (lastPtsOf k mx) (map (readSamples fs k) (filter (readable fs) segs))
            else lastPtsOf k mx) \<and>
         trackSamples k (muxLoop fs segs mx) =
           trackSamples k mx @
           (if 0 \<le> trackIndexOf k mx
            then retimedSamples (lastPtsOf k mx) (map (readSamples fs k) (filter (readable fs) segs))
            else [])"
  using assms
proof (induction segs arbitrary: mx)
  case Nil
  then show ?case by simp
next
  case (Cons p segs)
  show ?case
  proof (cases "readable fs p")
    case False
    with Cons show ?thesis by (simp add: processSegment_skips)
  next
    case True
    then obtain trks where u: "usable fs p" and d: "setDataSource fs p = Some trks"
      by (rule readable_cases)
    let ?mx1 = "processSegment fs p mx"
    have t1: "trk_inv ?mx1" using Cons.prems(1) by (rule trk_inv_step)
    have s1: "muxerStarted ?mx1" using u d by (rule started_after)
    have i1: "trackIndexOf k ?mx1 = trackIndexOf k mx"
      using Cons.prems(2) by (simp add: index_after [OF u d])
    have a1: "addedTracks ?mx1 = addedTracks mx"
      using Cons.prems(2) by (simp add: added_after [OF u d])
    have l1: "lastPtsOf k ?mx1 =
        (if 0 \<le> trackIndexOf k mx then nextOffset (lastPtsOf k mx) (readSamples fs k p)
         else lastPtsOf k mx)"
      by (simp add: lastPts_after [OF u d] i1)
    note w1 = trackSamples_after [OF u d Cons.prems, where k = k]
    from Cons.IH [OF t1 s1] True show ?thesis
      by (simp add: i1 a1 l1 w1)
  qed
qed

lemma run_from_start:
  assumes "trk_inv mx" and "\<not> muxerStarted mx"
  shows "(muxerStarted (muxLoop fs segs mx) \<longleftrightarrow> (\<exists>p\<in>set segs. readable fs p)) \<and>
         (0 \<le> trackIndexOf k (muxLoop fs segs mx) \<longleftrightarrow> registers fs k segs) \<and>
         trackSamples k (muxLoop fs segs mx) =
           (if registers fs k segs
            then retimedSamples 0 (map (readSamples fs k) (filter (readable fs) segs))
            else [])"
  using assms
proof (induction segs arbitrary: mx)
  case Nil
  then have "trackIndexOf k mx < 0" "writtenSamples mx = []" by (simp_all add: trk_inv_def)
  with Nil show ?case by (simp add: registers_def trackSamples_def)
next
  case (Cons p segs)
  show ?case
  proof (cases "readable fs p")
    case False
    then have "registers fs k (p # segs) = registers fs k segs" by (simp add: registers_def)
    with Cons False show ?thesis by (simp add: processSegment_skips)
  next
    case True
    then obtain trks where u: "usable fs p" and d: "setDataSource fs p = Some trks"
      by (rule readable_cases)
    let ?mx1 = "processSegment fs p mx"
    from Cons.prems have neg: "trackIndexOf k mx < 0" and w0: "writtenSamples mx = []"
      and l0: "lastPtsOf k mx = 0" by (simp_all add: trk_inv_def)
    have t1: "trk_inv ?mx1" using Cons.prems(1) by (rule trk_inv_step)
    have s1: "muxerStarted ?mx1" using u d by (rule started_after)
    have r: "registers fs k (p # segs) = hasTrack k trks"
      using True d by (simp add: registers_def)
    have i1: "0 \<le> trackIndexOf k ?mx1 \<longleftrightarrow> hasTrack k trks"
      using Cons.prems(2) neg setupTracks_registers [of k trks mx]
      by (simp add: index_after [OF u d])
    have l1: "lastPtsOf k ?mx1 =
        (if hasTrack k trks then nextOffset 0 (readSamples fs k p) else 0)"
      using i1 by (simp add: lastPts_after [OF u d] l0)
    have w1: "trackSamples k ?mx1 =
        (if hasTrack k trks then map (shifted 0) (readSamples fs k p) else [])"
      unfolding trackSamples_def filter_after [OF u d Cons.prems(1)]
      using i1 by (simp add: w0 writes_def l0 comp_def asSample_writtenAs)
    from track_run [OF t1 s1, where k = k and fs = fs and segs = segs] True show ?thesis
      by (simp add: r i1 l1 w1)
  qed
qed

lemma selectTrack_find:
  "selectTrack pre ts =
     (case find (\<lambda>t. case mime t of None \<Rightarrow> False | Some m \<Rightarrow> startsWith m pre) ts of
        None \<Rightarrow> [] | Some t \<Rightarrow> samples t)"
  by (induction ts) (simp_all split: option.splits)

lemma reg_inv_unique:
  assumes "reg_inv mx" and "i < length (addedTracks mx)"
    and "startsWith (addedTracks mx ! i) (mimePrefixOf k)"
  shows "trackIndexOf k mx = int i"
proof -
  from assms(1,2) obtain k' where k': "trackIndexOf k' mx = int i" by (auto simp: reg_inv_def)
  then have "0 \<le> trackIndexOf k' mx" by simp
  with assms(1) have "startsWith (addedTracks mx ! nat (trackIndexOf k' mx)) (mimePrefixOf k')"
    unfolding reg_inv_def by blast
  then have "startsWith (addedTracks mx ! i) (mimePrefixOf k')" by (simp add: k')
  from startsWith_kinds [OF assms(3) this] k' show ?thesis by simp
qed

lemma muxedTrack_simps:
  "mime (muxedTrack mx i) = Some (addedTracks mx ! i)"
  "samples (muxedTrack mx i) = map asSample (filter (\<lambda>w. fst w = int i) (writtenSamples mx))"
  by (simp_all add: muxedTrack_def asSample_def)

lemma muxed_select:
  assumes "reg_inv mx"
  shows "selectTrack (mimePrefixOf k) (muxedTracks mx) =
           (if 0 \<le> trackIndexOf k mx then trackSamples k mx else [])"
proof -
  let ?n = "length (addedTracks mx)"
  let ?P = "\<lambda>t. case mime t of None \<Rightarrow> False | Some m \<Rightarrow> startsWith m (mimePrefixOf k)"
  have len: "length (muxedTracks mx) = ?n" by (simp add: muxedTracks_def)
  have nth: "muxedTracks mx ! i = muxedTrack mx i" if "i < ?n" for i
    using that by (simp add: muxedTracks_def)
  have P: "?P (muxedTracks mx ! i) \<longleftrightarrow> startsWith (addedTracks mx ! i) (mimePrefixOf k)"
    if "i < ?n" for i
    by (simp add: nth [OF that] muxedTrack_simps)
  show ?thesis
  proof (cases "0 \<le> trackIndexOf k mx")
    case True
    let ?j = "nat (trackIndexOf k mx)"
    from assms True have "trackIndexOf k mx < int ?n"
      and pj: "startsWith (addedTracks mx ! ?j) (mimePrefixOf k)"
      unfolding reg_inv_def by blast+
    with True have j: "?j < ?n" by simp
    have "\<not> ?P (muxedTracks mx ! i)" if "i < ?j" for i
    proof
      assume a: "?P (muxedTracks mx ! i)"
      from that j have i: "i < ?n" by simp
      from a P [OF i] have "startsWith (addedTracks mx ! i) (mimePrefixOf k)" by simp
      from reg_inv_unique [OF assms i this] that show False by simp
    qed
    with j pj P [OF j] have "find ?P (muxedTracks mx) = Some (muxedTracks mx ! ?j)"
      unfolding find_Some_iff len by blast
    then have "selectTrack (mimePrefixOf k) (muxedTracks mx) = samples (muxedTrack mx ?j)"
      by (simp add: selectTrack_find nth [OF j])
    with True show ?thesis by (simp add: muxedTrack_simps trackSamples_def)
  next
    case False
    have "\<not> ?P t" if "t \<in> set (muxedTracks mx)" for t
    proof
      assume a: "?P t"
      from that obtain i where i: "i < ?n" "t = muxedTracks mx ! i"
        by (metis in_set_conv_nth len)
      with a P [OF i(1)] have "startsWith (addedTracks mx ! i) (mimePrefixOf k)" by simp
      from reg_inv_unique [OF assms i(1) this] False show False by simp
    qed
    then have "find ?P (muxedTracks mx) = None" unfolding find_None_iff by blast
    with False show ?thesis by (simp add: selectTrack_find)
  qed
qed

lemma output_file:
  "fst (concatenateWithMuxer env fs segs out) out =
     (if muxerStarted (snd (concatenateWithMuxer env fs segs out))
      then Some \<lparr>bytes = mp4Bytes env (muxedTracks (snd (concatenateWithMuxer env fs segs out))),
                 media = Some (muxedTracks (snd (concatenateWithMuxer env fs segs out)))\<rparr>
      else Some \<lparr>bytes = [], media = None\<rparr>)"
  by (simp add: concatenateWithMuxer_def Let_def)

lemma output_samples:
  assumes "out \<notin> set segs"
  shows "segmentSamples (fst (concatenateWithMuxer env fs segs out)) k out =
           (if registers fs k segs
            then retimedSamples 0 (map (readSamples fs k) (filter (readable fs) segs))
            else [])"
proof -
  let ?mx = "muxLoop fs segs new_muxing"
  have n: "\<not> muxerStarted new_muxing" by (simp add: new_muxing_def)
  note run = run_from_start [OF trk_inv_new n, of fs segs k]
  have inv: "reg_inv ?mx" using muxLoop_trk_inv [OF trk_inv_new, of fs segs] by (simp add: trk_inv_def)
  show ?thesis
  proof (cases "muxerStarted ?mx")
    case True
    then have "segmentSamples (fst (concatenateWithMuxer env fs segs out)) k out =
        selectTrack (mimePrefixOf k) (muxedTracks ?mx)"
      using output_file [of env fs segs out]
      by (simp add: segmentSamples_def setDataSource_def concatenateWithMuxer_loop [OF assms])
    with run show ?thesis by (simp add: muxed_select [OF inv])
  next
    case False
    then have "segmentSamples (fst (concatenateWithMuxer env fs segs out)) k out = []"
      using output_file [of env fs segs out]
      by (simp add: segmentSamples_def setDataSource_def concatenateWithMuxer_loop [OF assms])
    moreover from False run have "find (readable fs) segs = None"
      unfolding find_None_iff by blast
    then have "\<not> registers fs k segs" by (simp add: registers_def)
    ultimately show ?thesis by simp
  qed
qed

lemma sint_add_nowrap:
  fixes a b :: klong
  assumes "0 \<le> sint a" and "0 \<le> sint b" and "sint a + sint b < 2 ^ 63"
  shows "sint (a + b) = sint a + sint b"
proof -
  have "sint (a + b) = signed_take_bit 63 (sint a + sint b)" by (simp add: sint_word_add)
  also have "\<dots> = sint a + sint b"
    using assms by (intro signed_take_bit_int_eq_self) simp_all
  finally show ?thesis .
qed

lemma sint_frame: "sint (33333 :: klong) = 33333"
  by simp

lemma laterOf_ge: "sint m \<le> sint (laterOf m t)" "sint t \<le> sint (laterOf m t)"
  by (simp_all add: laterOf_def)

lemma laterOf_in: "laterOf m t = m \<or> laterOf m t = t"
  by (simp add: laterOf_def)

lemma fold_later_ge: "sint m \<le> sint (fold (\<lambda>s m. laterOf m (f s)) ss m)"
proof (induction ss arbitrary: m)
  case Nil
  then show ?case by simp
next
  case (Cons s ss)
  have "sint m \<le> sint (laterOf m (f s))" by (rule laterOf_ge)
  also have "\<dots> \<le> sint (fold (\<lambda>s m. laterOf m (f s)) ss (laterOf m (f s)))" by (rule Cons.IH)
  finally show ?case by simp
qed

lemma fold_later_ge_elem:
  "s \<in> set ss \<Longrightarrow> sint (f s) \<le> sint (fold (\<lambda>s m. laterOf m (f s)) ss m)"
proof (induction ss arbitrary: m)
  case Nil
  then show ?case by simp
next
  case (Cons a ss)
  show ?case
  proof (cases "s = a")
    case True
    have "sint (f a) \<le> sint (laterOf m (f a))" by (rule laterOf_ge)
    also have "\<dots> \<le> sint (fold (\<lambda>s m. laterOf m (f s)) ss (laterOf m (f a)))"
      by (rule fold_later_ge)
    finally show ?thesis using True by simp
  next
    case False
    with Cons.prems have "s \<in> set ss" by simp
    from Cons.IH [OF this] show ?thesis by simp
  qed
qed

lemma fold_later_in: "fold (\<lambda>s m. laterOf m (f s)) ss m \<in> insert m (f ` set ss)"
proof (induction ss arbitrary: m)
  case Nil
  then show ?case by simp
next
  case (Cons a ss)
  from Cons.IH [of "laterOf m (f a)"] laterOf_in [of m "f a"] show ?case by auto
qed

lemma nextOffset_Nil: "nextOffset off [] = off + 33333"
  by (simp add: nextOffset_def)

text \<open>One call of \<^verbatim>\<open>copyTrack\<close> on timestamps between 0 and \<open>B\<close>, with room below \<open>2 ^ 63\<close>.\<close>

lemma nextOffset_facts:
  assumes off: "0 \<le> sint off" and room: "sint off + B + 33333 < 2 ^ 63"
    and bd: "\<forall>s\<in>set ss. 0 \<le> sint (sampleTime s) \<and> sint (sampleTime s) \<le> B" and B: "0 \<le> B"
  shows "\<forall>s\<in>set ss. sint (sampleTime s + off) = sint (sampleTime s) + sint off"
    and "sint off + 33333 \<le> sint (nextOffset off ss)"
    and "sint (nextOffset off ss) \<le> sint off + B + 33333"
    and "\<forall>s\<in>set ss. sint (sampleTime s) + sint off + 33333 \<le> sint (nextOffset off ss)"
    and "ss \<noteq> [] \<longrightarrow> (\<exists>s\<in>set ss. sint (nextOffset off ss) = sint (sampleTime s) + sint off + 33333)"
proof -
  let ?M = "fold (\<lambda>s m. laterOf m (sampleTime s + off)) ss off"
  have add: "sint (sampleTime s + off) = sint (sampleTime s) + sint off" if "s \<in> set ss" for s
    using that bd off room by (intro sint_add_nowrap) auto
  then show a: "\<forall>s\<in>set ss. sint (sampleTime s + off) = sint (sampleTime s) + sint off" by blast
  have lo: "sint off \<le> sint ?M" by (rule fold_later_ge)
  have el: "sint (sampleTime s) + sint off \<le> sint ?M" if "s \<in> set ss" for s
    using fold_later_ge_elem [OF that, of "\<lambda>s. sampleTime s + off" off] add [OF that] by simp
  from fold_later_in [of "\<lambda>s. sampleTime s + off" ss off]
  consider "?M = off" | s where "s \<in> set ss" "?M = sampleTime s + off" by auto
  then have hi: "sint ?M \<le> sint off + B"
  proof cases
    case 1
    with B show ?thesis by simp
  next
    case 2
    with add [OF 2(1)] bd show ?thesis by auto
  qed
  have n: "sint (nextOffset off ss) = sint ?M + 33333"
    unfolding nextOffset_def using lo off hi room
    by (subst sint_add_nowrap) (simp_all add: sint_frame)
  from n lo show "sint off + 33333 \<le> sint (nextOffset off ss)" by simp
  from n hi show "sint (nextOffset off ss) \<le> sint off + B + 33333" by simp
  from n el show "\<forall>s\<in>set ss. sint (sampleTime s) + sint off + 33333 \<le> sint (nextOffset off ss)"
    by simp
  show "ss \<noteq> [] \<longrightarrow> (\<exists>s\<in>set ss. sint (nextOffset off ss) = sint (sampleTime s) + sint off + 33333)"
  proof
    assume ne: "ss \<noteq> []"
    from fold_later_in [of "\<lambda>s. sampleTime s + off" ss off]
    consider "?M = off" | s where "s \<in> set ss" "?M = sampleTime s + off" by auto
    then show "\<exists>s\<in>set ss. sint (nextOffset off ss) = sint (sampleTime s) + sint off + 33333"
    proof cases
      case 1
      from ne obtain s where s: "s \<in> set ss" by (cases ss) auto
      with bd have "0 \<le> sint (sampleTime s)" by simp
      with el [OF s] 1 have "sint ?M = sint (sampleTime s) + sint off" by simp
      with n have "sint (nextOffset off ss) = sint (sampleTime s) + sint off + 33333" by simp
      with s show ?thesis by blast
    next
      case 2
      with add [OF 2(1)] n
      have "sint (nextOffset off ss) = sint (sampleTime s) + sint off + 33333" by simp
      with 2(1) show ?thesis by blast
    qed
  qed
qed

lemma retimedSamples_append:
  "retimedSamples off (a @ b) = retimedSamples off a @ retimedSamples (offsetAfter off a) b"
  by (induction a arbitrary: off) simp_all

lemma offsetAfter_append: "offsetAfter off (a @ b) = offsetAfter (offsetAfter off a) b"
  by (induction a arbitrary: off) simp_all

lemma timestamps_shifted:
  "timestamps (map (shifted off) ss) = map (\<lambda>s. sint (sampleTime s + off)) ss"
  by (simp add: timestamps_def shifted_def comp_def)

lemma timestamps_append: "timestamps (a @ b) = timestamps a @ timestamps b"
  by (simp add: timestamps_def)

text \<open>The loop on \<open>n\<close> segments with timestamps between 0 and \<open>B\<close>, with room for
  \<open>n * (B + 33333)\<close> below \<open>2 ^ 63\<close>: every timestamp written lies between the offset at
  the start and one frame before the offset at the end.\<close>

lemma retimed_bounds:
  assumes "0 \<le> sint off" and "0 \<le> B"
    and "\<forall>ss\<in>set sss. \<forall>s\<in>set ss. 0 \<le> sint (sampleTime s) \<and> sint (sampleTime s) \<le> B"
    and "sint off + int (length sss) * (B + 33333) < 2 ^ 63"
  shows "sint off + int (length sss) * 33333 \<le> sint (offsetAfter off sss) \<and>
         sint (offsetAfter off sss) \<le> sint off + int (length sss) * (B + 33333) \<and>
         (\<forall>t\<in>set (timestamps (retimedSamples off sss)).
            sint off \<le> t \<and> t + 33333 \<le> sint (offsetAfter off sss))"
  using assms
proof (induction sss arbitrary: off)
  case Nil
  then show ?case by (simp add: timestamps_def)
next
  case (Cons ss sss)
  let ?off' = "nextOffset off ss"
  have e: "int (length (ss # sss)) * (B + 33333) = (B + 33333) + int (length sss) * (B + 33333)"
    "int (length (ss # sss)) * 33333 = 33333 + int (length sss) * 33333"
    by (simp_all add: algebra_simps)
  have p: "0 \<le> int (length sss) * (B + 33333)" using Cons.prems(2) by simp
  from Cons.prems(4) p have room: "sint off + B + 33333 < 2 ^ 63" unfolding e by simp
  from Cons.prems(3) have bd: "\<forall>s\<in>set ss. 0 \<le> sint (sampleTime s) \<and> sint (sampleTime s) \<le> B"
    and bds: "\<forall>ss\<in>set sss. \<forall>s\<in>set ss. 0 \<le> sint (sampleTime s) \<and> sint (sampleTime s) \<le> B"
    by simp_all
  note f = nextOffset_facts [OF Cons.prems(1) room bd Cons.prems(2)]
  from f(2) Cons.prems(1) have o': "0 \<le> sint ?off'" by simp
  from f(3) Cons.prems(4) have r': "sint ?off' + int (length sss) * (B + 33333) < 2 ^ 63"
    unfolding e by simp
  from Cons.IH [OF o' Cons.prems(2) bds r']
  have i1: "sint ?off' + int (length sss) * 33333 \<le> sint (offsetAfter ?off' sss)"
    and i2: "sint (offsetAfter ?off' sss) \<le> sint ?off' + int (length sss) * (B + 33333)"
    and i3: "\<And>t. t \<in> set (timestamps (retimedSamples ?off' sss)) \<Longrightarrow>
              sint ?off' \<le> t \<and> t + 33333 \<le> sint (offsetAfter ?off' sss)"
    by blast+
  have q: "0 \<le> int (length sss) * 33333" by simp
  have a: "sint off + int (length (ss # sss)) * 33333 \<le> sint (offsetAfter off (ss # sss))"
    using i1 f(2) unfolding e by simp
  have b: "sint (offsetAfter off (ss # sss)) \<le> sint off + int (length (ss # sss)) * (B + 33333)"
    using i2 f(3) unfolding e by simp
  have c: "sint off \<le> t \<and> t + 33333 \<le> sint (offsetAfter off (ss # sss))"
    if "t \<in> set (timestamps (retimedSamples off (ss # sss)))" for t
  proof -
    from that have "t \<in> set (map (\<lambda>s. sint (sampleTime s + off)) ss) \<or>
        t \<in> set (timestamps (retimedSamples ?off' sss))"
      by (simp add: timestamps_append timestamps_shifted)
    then show ?thesis
    proof
      assume "t \<in> set (map (\<lambda>s. sint (sampleTime s + off)) ss)"
      then obtain s where s: "s \<in> set ss" "t = sint (sampleTime s + off)" by auto
      with f(1) bd f(4) have "sint off \<le> t" "t + 33333 \<le> sint ?off'" by auto
      with i1 q show ?thesis by simp
    next
      assume "t \<in> set (timestamps (retimedSamples ?off' sss))"
      from i3 [OF this] f(2) show ?thesis by simp
    qed
  qed
  from a b c show ?case by blast
qed

lemma retimed_empty:
  "retimedSamples off (replicate j []) = []"
  by (induction j arbitrary: off) simp_all

lemma offsetAfter_empty:
  assumes "0 \<le> sint off" and "sint off + int j * 33333 < 2 ^ 63"
  shows "sint (offsetAfter off (replicate j [])) = sint off + int j * 33333"
  using assms
proof (induction j arbitrary: off)
  case 0
  then show ?case by simp
next
  case (Suc j)
  have e: "int (Suc j) * 33333 = 33333 + int j * 33333" by (simp add: algebra_simps)
  have q: "0 \<le> int j * 33333" by simp
  from Suc.prems q have "sint off + 33333 < 2 ^ 63" unfolding e by simp
  with Suc.prems(1) have n: "sint (off + 33333) = sint off + 33333"
    by (subst sint_add_nowrap) (simp_all add: sint_frame)
  with Suc.prems have "0 \<le> sint (off + 33333)" "sint (off + 33333) + int j * 33333 < 2 ^ 63"
    unfolding e by simp_all
  from Suc.IH [OF this] n show ?case unfolding e by (simp add: nextOffset_Nil)
qed

lemma untimed_retimed: "map untimed (retimedSamples off sss) = concat (map (map untimed) sss)"
  by (induction sss arbitrary: off) (simp_all add: untimed_def shifted_def comp_def)

lemma valid_samples:
  "concat (map (\<lambda>p. map untimed (segmentSamples fs k p)) (filter (usable fs) segs)) =
   concat (map (map untimed) (readLists fs k segs))"
proof (induction segs)
  case Nil
  then show ?case by (simp add: readLists_def)
next
  case (Cons p segs)
  have "usable fs p \<Longrightarrow> \<not> readable fs p \<Longrightarrow> segmentSamples fs k p = []"
    by (auto simp: readable_def segmentSamples_def)
  moreover have "readable fs p \<Longrightarrow> usable fs p \<and> readSamples fs k p = segmentSamples fs k p"
    by (simp add: readable_def readSamples_def)
  moreover have "\<not> usable fs p \<Longrightarrow> \<not> readable fs p" by (simp add: readable_def)
  ultimately show ?case using Cons unfolding readLists_def by (cases "usable fs p"; cases "readable fs p") auto
qed

lemma output_tracks:
  assumes "out \<notin> set segs" and "v \<in> set segs" and "readable fs v"
  shows "\<exists>T. fst (concatenateWithMuxer env fs segs out) out =
               Some \<lparr>bytes = mp4Bytes env T, media = Some T\<rparr> \<and>
             (\<forall>t\<in>set T. \<exists>k. samples t =
                segmentSamples (fst (concatenateWithMuxer env fs segs out)) k out)"
proof -
  let ?mx = "muxLoop fs segs new_muxing"
  let ?r = "concatenateWithMuxer env fs segs out"
  have n: "\<not> muxerStarted new_muxing" by (simp add: new_muxing_def)
  from run_from_start [OF trk_inv_new n, of fs segs VideoTrack] assms(2,3)
  have st: "muxerStarted ?mx" by blast
  have inv: "reg_inv ?mx" using muxLoop_trk_inv [OF trk_inv_new, of fs segs] by (simp add: trk_inv_def)
  have f: "fst ?r out = Some \<lparr>bytes = mp4Bytes env (muxedTracks ?mx), media = Some (muxedTracks ?mx)\<rparr>"
    using output_file [of env fs segs out] st by (simp add: concatenateWithMuxer_loop [OF assms(1)])
  have "\<exists>k. samples t = segmentSamples (fst ?r) k out" if "t \<in> set (muxedTracks ?mx)" for t
  proof -
    from that obtain i where i: "i < length (addedTracks ?mx)" "t = muxedTrack ?mx i"
      by (auto simp: muxedTracks_def)
    with inv obtain k where k: "trackIndexOf k ?mx = int i" by (auto simp: reg_inv_def)
    then have "selectTrack (mimePrefixOf k) (muxedTracks ?mx) = trackSamples k ?mx"
      by (simp add: muxed_select [OF inv])
    also have "\<dots> = samples t" using i k by (simp add: trackSamples_def muxedTrack_simps)
    finally have "samples t = segmentSamples (fst ?r) k out"
      using f by (simp add: segmentSamples_def setDataSource_def)
    then show ?thesis ..
  qed
  with f show ?thesis by blast
qed

lemma concatenateSegments_muxed:
  assumes "2 \<le> length segs" and "resolverInsert env = Some uri" and "outputStreamOpens env"
    and "fst (concatenateWithMuxer env fs segs (tempOutputPath env)) (tempOutputPath env) = Some f"
  shows "\<exists>fs' ms' e. concatenateSegments env (fs, ms) segs user = (Some uri, fs', ms') \<and>
           ms' uri = Some e \<and> content e = bytes f"
proof -
  from assms(1) have "segs \<noteq> []" "length segs \<noteq> 1" by auto
  then show ?thesis
    using assms(2-4) by (simp add: concatenateSegments_def saveToMediaStore_def Let_def)
qed

text \<open>
  Claim C7. Given two or more input files of which at least one is valid (it exists, is
  not empty and opens as a container), with a sink that accepts the output: the
  concatenation returns the sink's reference, no error; what it stores there is the file
  the muxer wrote, a container each of whose tracks is the video or the audio track; it
  does exactly what it does on the list without the missing and the zero-length files;
  and the samples of each kind read back from the output are, timestamps apart, those of
  the files that exist with a length above zero, in order, and none when the first
  segment read holds no track of the kind.
\<close>

theorem bad_segments_skipped:
  assumes "tempOutputPath env \<notin> set segs" and "2 \<le> length segs"
    and "resolverInsert env = Some uri" and "outputStreamOpens env"
    and "v \<in> set segs" and "readable fs v"
  shows "(\<exists>fs' ms' e T.
            concatenateSegments env (fs, ms) segs user = (Some uri, fs', ms') \<and>
            ms' uri = Some e \<and> content e = mp4Bytes env T \<and>
            fst (concatenateWithMuxer env fs segs (tempOutputPath env)) (tempOutputPath env) =
              Some \<lparr>bytes = mp4Bytes env T, media = Some T\<rparr> \<and>
            (\<forall>t\<in>set T. \<exists>k. samples t =
               segmentSamples (fst (concatenateWithMuxer env fs segs (tempOutputPath env))) k
                 (tempOutputPath env))) \<and>
         concatenateWithMuxer env fs segs (tempOutputPath env) =
           concatenateWithMuxer env fs (filter (usable fs) segs) (tempOutputPath env) \<and>
         (\<forall>k. map untimed
                 (segmentSamples (fst (concatenateWithMuxer env fs segs (tempOutputPath env))) k
                    (tempOutputPath env)) =
               (if registers fs k segs
                then concat (map (\<lambda>p. map untimed (segmentSamples fs k p)) (filter (usable fs) segs))
                else []))"
proof (intro conjI allI)
  let ?out = "tempOutputPath env"
  from output_tracks [OF assms(1,5,6), of env] obtain T where
    f: "fst (concatenateWithMuxer env fs segs ?out) ?out = Some \<lparr>bytes = mp4Bytes env T, media = Some T\<rparr>"
    and t: "\<forall>t\<in>set T. \<exists>k. samples t = segmentSamples (fst (concatenateWithMuxer env fs segs ?out)) k ?out"
    by blast
  from concatenateSegments_muxed [OF assms(2-4) f, of ms user] obtain fs' ms' e where
    "concatenateSegments env (fs, ms) segs user = (Some uri, fs', ms')" "ms' uri = Some e"
    "content e = mp4Bytes env T" by auto
  with f t show "\<exists>fs' ms' e T.
            concatenateSegments env (fs, ms) segs user = (Some uri, fs', ms') \<and>
            ms' uri = Some e \<and> content e = mp4Bytes env T \<and>
            fst (concatenateWithMuxer env fs segs ?out) ?out =
              Some \<lparr>bytes = mp4Bytes env T, media = Some T\<rparr> \<and>
            (\<forall>t\<in>set T. \<exists>k. samples t =
               segmentSamples (fst (concatenateWithMuxer env fs segs ?out)) k ?out)"
    by blast
  show "concatenateWithMuxer env fs segs ?out =
           concatenateWithMuxer env fs (filter (usable fs) segs) ?out"
    using assms(1) by (rule concatenateWithMuxer_filter [symmetric])
  fix k
  show "map untimed (segmentSamples (fst (concatenateWithMuxer env fs segs ?out)) k ?out) =
          (if registers fs k segs
           then concat (map (\<lambda>p. map untimed (segmentSamples fs k p)) (filter (usable fs) segs))
           else [])"
    unfolding output_samples [OF assms(1)] valid_samples
    by (simp add: untimed_retimed readLists_def)
qed

theorem bad_segments_skipped_witness:
  "fst (concatenateSegments
     \<lparr>formattedDate = ''20260101_000000'', contextCacheDir = ''/cache'', sdkAtLeastQ = True,
      resolverInsert = Some ''content://media/external/video/media/1'', outputStreamOpens = True,
      mp4Bytes = (\<lambda>ts. [])\<rparr>
     ([''/cache/video_buffer/segment_1.mp4'' \<mapsto>
         \<lparr>bytes = [1], media = Some [\<lparr>mime = Some ''video/avc'',
            samples = [\<lparr>sampleTime = 0, sampleSize = 10, sampleFlags = 1\<rparr>]\<rparr>]\<rparr>,
       ''/cache/video_buffer/segment_3.mp4'' \<mapsto>
         \<lparr>bytes = [3], media = Some [\<lparr>mime = Some ''video/avc'',
            samples = [\<lparr>sampleTime = 0, sampleSize = 30, sampleFlags = 1\<rparr>]\<rparr>]\<rparr>], Map.empty)
     [''/cache/video_buffer/segment_1.mp4'', ''/cache/video_buffer/segment_2.mp4'',
      ''/cache/video_buffer/segment_3.mp4''] ''user'') =
     Some ''content://media/external/video/media/1'' \<and>
   map untimed (segmentSamples (fst (concatenateWithMuxer
     \<lparr>formattedDate = ''20260101_000000'', contextCacheDir = ''/cache'', sdkAtLeastQ = True,
      resolverInsert = Some ''content://media/external/video/media/1'', outputStreamOpens = True,
      mp4Bytes = (\<lambda>ts. [])\<rparr>
     [''/cache/video_buffer/segment_1.mp4'' \<mapsto>
         \<lparr>bytes = [1], media = Some [\<lparr>mime = Some ''video/avc'',
            samples = [\<lparr>sampleTime = 0, sampleSize = 10, sampleFlags = 1\<rparr>]\<rparr>]\<rparr>,
       ''/cache/video_buffer/segment_3.mp4'' \<mapsto>
         \<lparr>bytes = [3], media = Some [\<lparr>mime = Some ''video/avc'',
            samples = [\<lparr>sampleTime = 0, sampleSize = 30, sampleFlags = 1\<rparr>]\<rparr>]\<rparr>]
     [''/cache/video_buffer/segment_1.mp4'', ''/cache/video_buffer/segment_2.mp4'',
      ''/cache/video_buffer/segment_3.mp4'']
     ''/cache/temp_output_20260101_000000.mp4'')) VideoTrack
     ''/cache/temp_output_20260101_000000.mp4'') = [(10, 1), (30, 1)]"
proof -
  let ?env = "\<lparr>formattedDate = ''20260101_000000'', contextCacheDir = ''/cache'', sdkAtLeastQ = True,
      resolverInsert = Some ''content://media/external/video/media/1'', outputStreamOpens = True,
      mp4Bytes = (\<lambda>ts. [])\<rparr> :: platform"
  let ?fs = "[''/cache/video_buffer/segment_1.mp4'' \<mapsto>
         \<lparr>bytes = [1], media = Some [\<lparr>mime = Some ''video/avc'',
            samples = [\<lparr>sampleTime = 0, sampleSize = 10, sampleFlags = 1\<rparr>]\<rparr>]\<rparr>,
       ''/cache/video_buffer/segment_3.mp4'' \<mapsto>
         \<lparr>bytes = [3], media = Some [\<lparr>mime = Some ''video/avc'',
            samples = [\<lparr>sampleTime = 0, sampleSize = 30, sampleFlags = 1\<rparr>]\<rparr>]\<rparr>] :: filesystem"
  let ?segs = "[''/cache/video_buffer/segment_1.mp4'', ''/cache/video_buffer/segment_2.mp4'',
      ''/cache/video_buffer/segment_3.mp4'']"
  have t: "tempOutputPath ?env = ''/cache/temp_output_20260101_000000.mp4''"
    by (simp add: tempOutputPath_def)
  have h1: "tempOutputPath ?env \<notin> set ?segs" unfolding t by simp
  have h2: "2 \<le> length ?segs" by simp
  have h3: "resolverInsert ?env = Some ''content://media/external/video/media/1''" by simp
  have h4: "outputStreamOpens ?env" by simp
  have h5: "''/cache/video_buffer/segment_3.mp4'' \<in> set ?segs" by simp
  have u: "filter (usable ?fs) ?segs =
      [''/cache/video_buffer/segment_1.mp4'', ''/cache/video_buffer/segment_3.mp4'']"
    by (simp add: usable_def file_exists_def file_length_def)
  have r1: "readable ?fs ''/cache/video_buffer/segment_1.mp4''"
    by (simp add: readable_def usable_def file_exists_def file_length_def setDataSource_def)
  have h6: "readable ?fs ''/cache/video_buffer/segment_3.mp4''"
    by (simp add: readable_def usable_def file_exists_def file_length_def setDataSource_def)
  have reg: "registers ?fs VideoTrack ?segs"
    using r1 by (simp add: registers_def setDataSource_def hasTrack_def startsWith_def)
  have s: "concat (map (\<lambda>p. map untimed (segmentSamples ?fs VideoTrack p)) (filter (usable ?fs) ?segs)) =
      [(10, 1), (30, 1)]"
    unfolding u by (simp add: segmentSamples_def setDataSource_def startsWith_def untimed_def)
  note th = bad_segments_skipped [OF h1 h2 h3 h4 h5 h6, of Map.empty "''user''"]
  from th have "fst (concatenateSegments ?env (?fs, Map.empty) ?segs ''user'') =
      Some ''content://media/external/video/media/1''"
    by auto
  moreover from th have "map untimed
      (segmentSamples (fst (concatenateWithMuxer ?env ?fs ?segs (tempOutputPath ?env))) VideoTrack
         (tempOutputPath ?env)) =
      (if registers ?fs VideoTrack ?segs
       then concat (map (\<lambda>p. map untimed (segmentSamples ?fs VideoTrack p)) (filter (usable ?fs) ?segs))
       else [])"
    by blast
  then have "map untimed
      (segmentSamples (fst (concatenateWithMuxer ?env ?fs ?segs ''/cache/temp_output_20260101_000000.mp4''))
         VideoTrack ''/cache/temp_output_20260101_000000.mp4'') = [(10, 1), (30, 1)]"
    unfolding t s using reg by simp
  ultimately show ?thesis by (intro conjI)
qed

lemma readLists_append: "readLists fs k (a @ b) = readLists fs k a @ readLists fs k b"
  by (simp add: readLists_def)

lemma readLists_length: "length (readLists fs k segs) \<le> length segs"
  by (simp add: readLists_def)

lemma bounded_timesD:
  "bounded_times B fs p \<Longrightarrow> s \<in> set (readSamples fs k p) \<Longrightarrow>
   0 \<le> sint (sampleTime s) \<and> sint (sampleTime s) \<le> B"
  by (cases k) (auto simp: bounded_times_def list_all_iff)

lemma readLists_bounded:
  assumes "\<forall>p\<in>set segs. bounded_times B fs p"
  shows "\<forall>ss\<in>set (readLists fs k segs). \<forall>s\<in>set ss. 0 \<le> sint (sampleTime s) \<and> sint (sampleTime s) \<le> B"
  using assms by (auto simp: readLists_def dest: bounded_timesD)

lemma find_in_prefix: "\<exists>x\<in>set xs. P x \<Longrightarrow> find P (xs @ ys) = find P xs"
  by (induction xs) auto

lemma registers_append:
  "\<exists>p\<in>set xs. readable fs p \<Longrightarrow> registers fs k (xs @ ys) = registers fs k xs"
  by (simp add: registers_def find_in_prefix)

lemma registers_none:
  assumes "\<not> (\<exists>p\<in>set xs. readable fs p)"
  shows "\<not> registers fs k xs"
proof -
  from assms have "find (readable fs) xs = None" unfolding find_None_iff by blast
  then show ?thesis by (simp add: registers_def)
qed

lemma outputTimestamps_eq:
  assumes "out \<notin> set segs"
  shows "outputTimestamps env fs k segs out =
           (if registers fs k segs then timestamps (retimedSamples 0 (readLists fs k segs)) else [])"
  unfolding outputTimestamps_def output_samples [OF assms] readLists_def
  by (simp add: timestamps_def)

lemma room_mono:
  assumes "n \<le> m" and "0 \<le> B" and "int m * (B + 33333) < 2 ^ 63"
  shows "int n * (B + 33333) < 2 ^ 63"
proof -
  from assms(1,2) have "int n * (B + 33333) \<le> int m * (B + 33333)"
    by (intro mult_right_mono) simp_all
  with assms(3) show ?thesis by simp
qed

lemma increasing_across:
  assumes out: "out \<notin> set (xs @ ys)" and B: "0 \<le> B"
    and bd: "\<forall>p\<in>set (xs @ ys). bounded_times B fs p"
    and room: "int (length (xs @ ys)) * (B + 33333) < 2 ^ 63"
  shows "\<exists>new. outputTimestamps env fs k (xs @ ys) out = outputTimestamps env fs k xs out @ new \<and>
           (\<forall>a\<in>set (outputTimestamps env fs k xs out). \<forall>b\<in>set new. a < b)"
proof (cases "registers fs k xs")
  case False
  from out have "out \<notin> set xs" by simp
  from outputTimestamps_eq [OF this, of env fs k] False
  have "outputTimestamps env fs k xs out = []" by simp
  then show ?thesis by simp
next
  case True
  with registers_none [of xs fs k] have "\<exists>p\<in>set xs. readable fs p" by blast
  from registers_append [OF this, of k ys] True have reg: "registers fs k (xs @ ys)" by simp
  let ?A = "readLists fs k xs" and ?C = "readLists fs k ys"
  let ?off = "offsetAfter 0 ?A"
  from out have o: "out \<notin> set xs" by simp
  have old: "outputTimestamps env fs k xs out = timestamps (retimedSamples 0 ?A)"
    using outputTimestamps_eq [OF o, of env fs k] True by simp
  have all: "outputTimestamps env fs k (xs @ ys) out =
      timestamps (retimedSamples 0 ?A) @ timestamps (retimedSamples ?off ?C)"
    using outputTimestamps_eq [OF out, of env fs k] reg
    by (simp add: readLists_append retimedSamples_append timestamps_append)
  have z: "0 \<le> sint (0 :: klong)" by simp
  have bA: "\<forall>ss\<in>set ?A. \<forall>s\<in>set ss. 0 \<le> sint (sampleTime s) \<and> sint (sampleTime s) \<le> B"
    using bd by (intro readLists_bounded) simp
  have bC: "\<forall>ss\<in>set ?C. \<forall>s\<in>set ss. 0 \<le> sint (sampleTime s) \<and> sint (sampleTime s) \<le> B"
    using bd by (intro readLists_bounded) simp
  have len: "length ?A + length ?C \<le> length (xs @ ys)"
    using readLists_length [of fs k xs] readLists_length [of fs k ys] by simp
  have rAC: "int (length ?A + length ?C) * (B + 33333) < 2 ^ 63"
    using len B room by (rule room_mono)
  have rA: "sint (0 :: klong) + int (length ?A) * (B + 33333) < 2 ^ 63"
    using room_mono [OF _ B rAC, of "length ?A"] by simp
  from retimed_bounds [OF z B bA rA]
  have lo: "0 \<le> sint ?off" and hi: "sint ?off \<le> int (length ?A) * (B + 33333)"
    and before: "\<And>t. t \<in> set (timestamps (retimedSamples 0 ?A)) \<Longrightarrow> t + 33333 \<le> sint ?off"
    by simp_all
  have rC: "sint ?off + int (length ?C) * (B + 33333) < 2 ^ 63"
    using hi rAC by (simp add: algebra_simps)
  from retimed_bounds [OF lo B bC rC]
  have after: "\<And>t. t \<in> set (timestamps (retimedSamples ?off ?C)) \<Longrightarrow> sint ?off \<le> t"
    by simp
  have "a < b" if "a \<in> set (timestamps (retimedSamples 0 ?A))"
    "b \<in> set (timestamps (retimedSamples ?off ?C))" for a b
    using before [OF that(1)] after [OF that(2)] by simp
  then have "\<forall>a\<in>set (timestamps (retimedSamples 0 ?A)).
      \<forall>b\<in>set (timestamps (retimedSamples ?off ?C)). a < b" by blast
  then show ?thesis unfolding old all by blast
qed

lemma carries_readable: "carries fs k p \<Longrightarrow> readable fs p"
  by (auto simp: carries_def readSamples_def segmentSamples_def readable_def
      split: if_splits option.splits)

lemma readLists_one: "readable fs p \<Longrightarrow> readLists fs k [p] = [readSamples fs k p]"
  by (simp add: readLists_def)

lemma readLists_silent:
  assumes "\<forall>m\<in>set ms. \<not> carries fs k m"
  shows "readLists fs k ms = replicate (length (filter (readable fs) ms)) []"
  using assms by (induction ms) (simp_all add: readLists_def carries_def)

lemma Min_shift:
  assumes "ts \<noteq> []"
  shows "Min (set (map (\<lambda>t. t + c) ts)) = Min (set ts) + (c::int)"
proof -
  from assms have "set ts \<noteq> {}" "finite (set ts)" by simp_all
  from Min_add_commute [OF this(2,1), of "\<lambda>t. t" c] show ?thesis by simp
qed

text \<open>The boundary between two segments that carry samples of a kind, with segments in
  between that carry none.\<close>

lemma gap_at_boundary:
  assumes out: "out \<notin> set (xs @ [p] @ ms @ [q])" and B: "0 \<le> B"
    and bd: "\<forall>s\<in>set (xs @ [p] @ ms @ [q]). bounded_times B fs s"
    and room: "int (length (xs @ [p] @ ms @ [q])) * (B + 33333) < 2 ^ 63"
    and reg: "registers fs k (xs @ [p])"
    and cp: "carries fs k p" and cq: "carries fs k q" and nc: "\<forall>m\<in>set ms. \<not> carries fs k m"
  shows "outputTimestamps env fs k (xs @ [p]) out \<noteq> [] \<and>
         outputTimestamps env fs k (xs @ [p] @ ms @ [q]) out =
           outputTimestamps env fs k (xs @ [p]) out @
           map (\<lambda>t. t + (Max (set (outputTimestamps env fs k (xs @ [p]) out)) +
                          33333 * (1 + int (length (filter (readable fs) ms)))))
             (timestamps (readSamples fs k q))"
proof -
  define W where "W = B + 33333"
  define j where "j = length (filter (readable fs) ms)"
  let ?A = "readLists fs k xs"
  let ?Sp = "readSamples fs k p" and ?Sq = "readSamples fs k q"
  let ?offp = "offsetAfter 0 ?A"
  let ?Lp = "nextOffset ?offp ?Sp"
  let ?offq = "offsetAfter ?Lp (replicate j [])"
  let ?old = "outputTimestamps env fs k (xs @ [p]) out"
  from cp cq have rp: "readable fs p" and rq: "readable fs q" by (auto dest: carries_readable)
  from cp cq have nep: "?Sp \<noteq> []" and neq: "?Sq \<noteq> []" by (simp_all add: carries_def)
  have Lp: "readLists fs k (xs @ [p]) = ?A @ [?Sp]"
    by (simp add: readLists_append readLists_one [OF rp])
  have "readLists fs k (xs @ [p] @ ms @ [q]) =
      ?A @ readLists fs k [p] @ readLists fs k ms @ readLists fs k [q]"
    by (simp only: readLists_append)
  then have Lall: "readLists fs k (xs @ [p] @ ms @ [q]) = (?A @ [?Sp]) @ (replicate j [] @ [?Sq])"
    unfolding j_def readLists_one [OF rp] readLists_one [OF rq] readLists_silent [OF nc]
    by simp
  have "\<exists>s\<in>set (xs @ [p]). readable fs s" using rp by simp
  from registers_append [OF this, of k "ms @ [q]"] reg
  have regall: "registers fs k (xs @ [p] @ ms @ [q])" by simp
  from out have o1: "out \<notin> set (xs @ [p])" by simp
  have offAp: "offsetAfter 0 (?A @ [?Sp]) = ?Lp" by (simp add: offsetAfter_append)
  have old: "?old = timestamps (retimedSamples 0 ?A) @ map (\<lambda>s. sint (sampleTime s + ?offp)) ?Sp"
    using outputTimestamps_eq [OF o1, of env fs k] reg
    by (simp add: Lp retimedSamples_append timestamps_append timestamps_shifted)
  have old': "?old = timestamps (retimedSamples 0 (?A @ [?Sp]))"
    using outputTimestamps_eq [OF o1, of env fs k] reg by (simp add: Lp)
  have all: "outputTimestamps env fs k (xs @ [p] @ ms @ [q]) out =
      ?old @ map (\<lambda>s. sint (sampleTime s + ?offq)) ?Sq"
    unfolding outputTimestamps_eq [OF out] old' Lall
    using regall
    by (simp only: if_True retimedSamples_append [of _ "?A @ [?Sp]"] offAp timestamps_append)
       (simp add: retimedSamples_append retimed_empty offsetAfter_append timestamps_def
          shifted_def)
  text \<open>No sum leaves the range.\<close>
  have W: "0 \<le> W" "33333 \<le> W" using B by (simp_all add: W_def)
  have n: "length ?A \<le> length xs" by (rule readLists_length)
  have jl: "j \<le> length ms" by (simp add: j_def)
  have K: "int (length xs) * W + int (length ms) * W + 2 * W < 2 ^ 63"
    using room by (simp add: W_def algebra_simps)
  have nW: "int (length ?A) * W \<le> int (length xs) * W"
    using n W(1) by (intro mult_right_mono) simp_all
  have jW: "int j * 33333 \<le> int (length ms) * W"
  proof -
    have "int j * 33333 \<le> int (length ms) * 33333" using jl by simp
    also have "\<dots> \<le> int (length ms) * W" using W(2) by (intro mult_left_mono) simp_all
    finally show ?thesis .
  qed
  have pW: "0 \<le> int (length ms) * W" "0 \<le> int (length xs) * W" using W(1) by simp_all
  have z: "0 \<le> sint (0 :: klong)" by simp
  have bA: "\<forall>ss\<in>set ?A. \<forall>s\<in>set ss. 0 \<le> sint (sampleTime s) \<and> sint (sampleTime s) \<le> B"
    using bd by (intro readLists_bounded) simp
  have bAp: "\<forall>ss\<in>set (?A @ [?Sp]). \<forall>s\<in>set ss. 0 \<le> sint (sampleTime s) \<and> sint (sampleTime s) \<le> B"
    using bd readLists_bounded [of "xs @ [p]" B fs k] unfolding Lp by simp
  have bp: "\<forall>s\<in>set ?Sp. 0 \<le> sint (sampleTime s) \<and> sint (sampleTime s) \<le> B"
    using bAp by simp
  have bq: "\<forall>s\<in>set ?Sq. 0 \<le> sint (sampleTime s) \<and> sint (sampleTime s) \<le> B"
    using bd by (auto dest: bounded_timesD)
  have "int (length ?A) * W < 2 ^ 63" using nW K pW W(1) by linarith
  then have rA: "sint (0 :: klong) + int (length ?A) * (B + 33333) < 2 ^ 63"
    by (simp add: W_def)
  from retimed_bounds [OF z B bA rA]
  have offp: "0 \<le> sint ?offp" "sint ?offp \<le> int (length ?A) * W"
    by (simp_all add: W_def)
  have "int (length ?A) * W + W < 2 ^ 63" using nW K pW W(1) by linarith
  then have rAp: "sint (0 :: klong) + int (length (?A @ [?Sp])) * (B + 33333) < 2 ^ 63"
    by (simp add: W_def algebra_simps)
  from retimed_bounds [OF z B bAp rAp]
  have Lp_hi: "sint ?Lp \<le> int (length ?A) * W + W"
    and Lp_lo: "0 \<le> sint ?Lp"
    and before: "\<And>t. t \<in> set ?old \<Longrightarrow> t + 33333 \<le> sint ?Lp"
    unfolding offAp old' by (simp_all add: W_def algebra_simps)
  have "sint ?offp + W < 2 ^ 63" using offp(2) nW K pW W(1) by linarith
  then have roomp: "sint ?offp + B + 33333 < 2 ^ 63" by (simp add: W_def)
  note fp = nextOffset_facts [OF offp(1) roomp bp B]
  from fp(5) nep obtain s where s: "s \<in> set ?Sp"
    "sint ?Lp = sint (sampleTime s) + sint ?offp + 33333" by blast
  with fp(1) have top: "sint ?Lp - 33333 = sint (sampleTime s + ?offp)" by simp
  have mem: "sint ?Lp - 33333 \<in> set ?old" unfolding old top using s(1) by simp
  then have ne: "?old \<noteq> []" by auto
  have Max: "Max (set ?old) = sint ?Lp - 33333"
  proof (rule Max_eqI)
    show "finite (set ?old)" by simp
    show "sint ?Lp - 33333 \<in> set ?old" by (rule mem)
    fix y assume "y \<in> set ?old"
    from before [OF this] show "y \<le> sint ?Lp - 33333" by simp
  qed
  have roomj: "sint ?Lp + int j * 33333 < 2 ^ 63"
    using Lp_hi jW nW K W(1) by linarith
  from offsetAfter_empty [OF Lp_lo roomj]
  have offq: "sint ?offq = sint ?Lp + int j * 33333" .
  have offq0: "0 \<le> sint ?offq" using offq Lp_lo by simp
  have "sint ?offq + W < 2 ^ 63" using offq Lp_hi jW nW K by linarith
  then have roomq: "sint ?offq + B + 33333 < 2 ^ 63" by (simp add: W_def)
  note fq = nextOffset_facts [OF offq0 roomq bq B]
  have "map (\<lambda>s. sint (sampleTime s + ?offq)) ?Sq =
      map (\<lambda>t. t + (Max (set ?old) + 33333 * (1 + int j))) (timestamps ?Sq)"
    using fq(1) by (simp add: timestamps_def Max offq algebra_simps)
  with all have "outputTimestamps env fs k (xs @ [p] @ ms @ [q]) out =
      ?old @ map (\<lambda>t. t + (Max (set ?old) + 33333 * (1 + int (length (filter (readable fs) ms)))))
        (timestamps ?Sq)"
    unfolding j_def by simp
  with ne show ?thesis by (intro conjI)
qed

text \<open>A kind that the first segment read does not hold has no track in the output,
  whatever the later segments carry.\<close>

lemma track_absent_from_first_segment:
  assumes "out \<notin> set segs" and "\<not> registers fs k segs"
  shows "outputTimestamps env fs k segs out = []"
  using outputTimestamps_eq [OF assms(1), of env fs k] assms(2) by simp

text \<open>
  Claim C2, as amended. Take a list of \<open>n\<close> segments whose original timestamps lie
  between 0 and \<open>B\<close>, with \<open>n * (B + 33333) < 2 ^ 63\<close>, so that no \<^verbatim>\<open>Long\<close> sum wraps. Wherever
  the list is cut in two, the output of the whole list is, per track, the output of the
  first part followed by timestamps that are all greater: the output timestamps are
  strictly increasing across every segment boundary. For a track that the output has
  (the first segment read holds one), at the boundary between two segments that carry
  samples of the track, with segments in between that carry none, each sample of the
  later segment is written at its original timestamp plus the greatest timestamp written
  to the track so far plus 33333 microseconds (one nominal frame) for the earlier segment
  and for each segment read in between. The discontinuity at the boundary, from the
  greatest timestamp before it to the least one after it, is therefore one nominal frame
  for each of those segments plus the least original timestamp of the later segment's
  track, which is not negative: at least one frame, and exactly one frame only when the
  later segment follows directly and its track starts at timestamp zero.
\<close>

theorem timestamps_across_segment_boundaries:
  assumes "out \<notin> set segs" and "0 \<le> B" and "\<forall>s\<in>set segs. bounded_times B fs s"
    and "int (length segs) * (B + 33333) < 2 ^ 63"
  shows
    "(segs = xs @ ys \<longrightarrow>
        (\<exists>new. outputTimestamps env fs k segs out = outputTimestamps env fs k xs out @ new \<and>
           (\<forall>a\<in>set (outputTimestamps env fs k xs out). \<forall>b\<in>set new. a < b))) \<and>
     (segs = xs @ [p] @ ms @ [q] @ zs \<and> registers fs k segs \<and> carries fs k p \<and> carries fs k q \<and>
      (\<forall>m\<in>set ms. \<not> carries fs k m) \<longrightarrow>
        outputTimestamps env fs k (xs @ [p]) out \<noteq> [] \<and>
        outputTimestamps env fs k (xs @ [p] @ ms @ [q]) out =
          outputTimestamps env fs k (xs @ [p]) out @
          map (\<lambda>t. t + (Max (set (outputTimestamps env fs k (xs @ [p]) out)) +
                         33333 * (1 + int (length (filter (readable fs) ms)))))
            (timestamps (readSamples fs k q)) \<and>
        (\<exists>rest. outputTimestamps env fs k segs out =
                  outputTimestamps env fs k (xs @ [p] @ ms @ [q]) out @ rest) \<and>
        0 \<le> Min (set (timestamps (readSamples fs k q))) \<and>
        Min (set (map (\<lambda>t. t + (Max (set (outputTimestamps env fs k (xs @ [p]) out)) +
                                 33333 * (1 + int (length (filter (readable fs) ms)))))
                    (timestamps (readSamples fs k q)))) -
          Max (set (outputTimestamps env fs k (xs @ [p]) out)) =
          33333 * (1 + int (length (filter (readable fs) ms))) +
          Min (set (timestamps (readSamples fs k q))))"
proof (rule conjI; rule impI)
  assume "segs = xs @ ys"
  with assms increasing_across [of out xs ys B fs env k]
  show "\<exists>new. outputTimestamps env fs k segs out = outputTimestamps env fs k xs out @ new \<and>
           (\<forall>a\<in>set (outputTimestamps env fs k xs out). \<forall>b\<in>set new. a < b)"
    by simp
next
  let ?L = "xs @ [p] @ ms @ [q]"
  let ?old = "outputTimestamps env fs k (xs @ [p]) out"
  let ?c = "Max (set ?old) + 33333 * (1 + int (length (filter (readable fs) ms)))"
  let ?ts = "timestamps (readSamples fs k q)"
  assume a: "segs = xs @ [p] @ ms @ [q] @ zs \<and> registers fs k segs \<and> carries fs k p \<and>
    carries fs k q \<and> (\<forall>m\<in>set ms. \<not> carries fs k m)"
  then have segs: "segs = ?L @ zs" by simp
  from a have cp: "carries fs k p" and cq: "carries fs k q"
    and nc: "\<forall>m\<in>set ms. \<not> carries fs k m" by simp_all
  from cp have "\<exists>s\<in>set (xs @ [p]). readable fs s" by (auto dest: carries_readable)
  from registers_append [OF this, of k "ms @ [q] @ zs"]
  have "registers fs k segs = registers fs k (xs @ [p])" using a by simp
  with a have reg: "registers fs k (xs @ [p])" by blast
  from assms(1) segs have out: "out \<notin> set ?L" by simp
  from assms(3) segs have bd: "\<forall>s\<in>set ?L. bounded_times B fs s" by auto
  have "length ?L \<le> length segs" unfolding segs by simp
  from room_mono [OF this assms(2,4)]
  have room: "int (length ?L) * (B + 33333) < 2 ^ 63" .
  from gap_at_boundary [OF out assms(2) bd room reg cp cq nc, of env]
  have ne: "?old \<noteq> []"
    and new: "outputTimestamps env fs k ?L out = ?old @ map (\<lambda>t. t + ?c) ?ts"
    by simp_all
  from increasing_across [of out ?L zs B fs env k] assms segs
  have rest: "\<exists>rest. outputTimestamps env fs k segs out = outputTimestamps env fs k ?L out @ rest"
    by auto
  from cq have tne: "?ts \<noteq> []" by (simp add: carries_def timestamps_def)
  then have "Min (set ?ts) \<in> set ?ts" by (intro Min_in) simp_all
  then obtain s where "s \<in> set (readSamples fs k q)" "Min (set ?ts) = sint (sampleTime s)"
    by (auto simp: timestamps_def)
  moreover from assms(3) segs have "bounded_times B fs q" by auto
  ultimately have pos: "0 \<le> Min (set ?ts)" by (auto dest: bounded_timesD)
  have gap: "Min (set (map (\<lambda>t. t + ?c) ?ts)) - Max (set ?old) =
      33333 * (1 + int (length (filter (readable fs) ms))) + Min (set ?ts)"
    unfolding Min_shift [OF tne] by simp
  from ne new rest pos gap
  show "?old \<noteq> [] \<and> outputTimestamps env fs k ?L out = ?old @ map (\<lambda>t. t + ?c) ?ts \<and>
        (\<exists>rest. outputTimestamps env fs k segs out = outputTimestamps env fs k ?L out @ rest) \<and>
        0 \<le> Min (set ?ts) \<and>
        Min (set (map (\<lambda>t. t + ?c) ?ts)) - Max (set ?old) =
          33333 * (1 + int (length (filter (readable fs) ms))) + Min (set ?ts)"
    by (intro conjI)
qed

lemmas run_defs =
  outputTimestamps_def timestamps_def segmentSamples_def concatenateWithMuxer_def
  processSegment_def file_exists_def file_length_def setDataSource_def new_muxing_def
  startsWith_def addTrack_def copyTrack_def muxedTracks_def muxedTrack_def Let_def

text \<open>
  The claim fails on three inputs of two segments with one video track each. With
  original timestamps 0, 33333 and then 20000, 53333 the boundary is crossed from 33333
  to 86666, more than one nominal frame. With 0, 33333 and then -50000, 0 the output goes
  back from 33333 to 16666. With 0, 9223372036854742474 and then 1 the offset of the
  second segment is the greatest \<^verbatim>\<open>Long\<close>, the sum wraps, and the output goes back to the
  least \<^verbatim>\<open>Long\<close>.
\<close>

theorem boundary_gap_counterexample:
  "outputTimestamps
     \<lparr>formattedDate = ''20260101_000000'', contextCacheDir = ''/cache'', sdkAtLeastQ = True,
      resolverInsert = None, outputStreamOpens = True, mp4Bytes = (\<lambda>ts. [])\<rparr>
     [''/cache/video_buffer/segment_0.mp4'' \<mapsto>
         \<lparr>bytes = [1], media = Some [\<lparr>mime = Some ''video/avc'',
            samples = [\<lparr>sampleTime = 0, sampleSize = 10, sampleFlags = 1\<rparr>,
                       \<lparr>sampleTime = 33333, sampleSize = 11, sampleFlags = 0\<rparr>]\<rparr>]\<rparr>,
      ''/cache/video_buffer/segment_1.mp4'' \<mapsto>
         \<lparr>bytes = [2], media = Some [\<lparr>mime = Some ''video/avc'',
            samples = [\<lparr>sampleTime = 20000, sampleSize = 20, sampleFlags = 1\<rparr>,
                       \<lparr>sampleTime = 53333, sampleSize = 21, sampleFlags = 0\<rparr>]\<rparr>]\<rparr>]
     VideoTrack
     [''/cache/video_buffer/segment_0.mp4'', ''/cache/video_buffer/segment_1.mp4'']
     ''/cache/temp_output_20260101_000000.mp4'' = [0, 33333, 86666, 119999] \<and>
   \<not> (86666 - 33333 \<le> (33333 :: int)) \<and>
   outputTimestamps
     \<lparr>formattedDate = ''20260101_000000'', contextCacheDir = ''/cache'', sdkAtLeastQ = True,
      resolverInsert = None, outputStreamOpens = True, mp4Bytes = (\<lambda>ts. [])\<rparr>
     [''/cache/video_buffer/segment_0.mp4'' \<mapsto>
         \<lparr>bytes = [1], media = Some [\<lparr>mime = Some ''video/avc'',
            samples = [\<lparr>sampleTime = 0, sampleSize = 10, sampleFlags = 1\<rparr>,
                       \<lparr>sampleTime = 33333, sampleSize = 11, sampleFlags = 0\<rparr>]\<rparr>]\<rparr>,
      ''/cache/video_buffer/segment_1.mp4'' \<mapsto>
         \<lparr>bytes = [2], media = Some [\<lparr>mime = Some ''video/avc'',
            samples = [\<lparr>sampleTime = - 50000, sampleSize = 20, sampleFlags = 1\<rparr>,
                       \<lparr>sampleTime = 0, sampleSize = 21, sampleFlags = 0\<rparr>]\<rparr>]\<rparr>]
     VideoTrack
     [''/cache/video_buffer/segment_0.mp4'', ''/cache/video_buffer/segment_1.mp4'']
     ''/cache/temp_output_20260101_000000.mp4'' = [0, 33333, 16666, 66666] \<and>
   \<not> (33333 < (16666 :: int)) \<and>
   outputTimestamps
     \<lparr>formattedDate = ''20260101_000000'', contextCacheDir = ''/cache'', sdkAtLeastQ = True,
      resolverInsert = None, outputStreamOpens = True, mp4Bytes = (\<lambda>ts. [])\<rparr>
     [''/cache/video_buffer/segment_0.mp4'' \<mapsto>
         \<lparr>bytes = [1], media = Some [\<lparr>mime = Some ''video/avc'',
            samples = [\<lparr>sampleTime = 0, sampleSize = 10, sampleFlags = 1\<rparr>,
                       \<lparr>sampleTime = 9223372036854742474, sampleSize = 11, sampleFlags = 0\<rparr>]\<rparr>]\<rparr>,
      ''/cache/video_buffer/segment_1.mp4'' \<mapsto>
         \<lparr>bytes = [2], media = Some [\<lparr>mime = Some ''video/avc'',
            samples = [\<lparr>sampleTime = 1, sampleSize = 20, sampleFlags = 1\<rparr>]\<rparr>]\<rparr>]
     VideoTrack
     [''/cache/video_buffer/segment_0.mp4'', ''/cache/video_buffer/segment_1.mp4'']
     ''/cache/temp_output_20260101_000000.mp4'' =
       [0, 9223372036854742474, - 9223372036854775808] \<and>
   \<not> (9223372036854742474 < (- 9223372036854775808 :: int))"
  by (simp add: run_defs)

theorem timestamps_across_segment_boundaries_witness:
  "outputTimestamps
     \<lparr>formattedDate = ''20260101_000000'', contextCacheDir = ''/cache'', sdkAtLeastQ = True,
      resolverInsert = None, outputStreamOpens = True, mp4Bytes = (\<lambda>ts. [])\<rparr>
     [''/cache/video_buffer/segment_0.mp4'' \<mapsto>
         \<lparr>bytes = [1], media = Some [\<lparr>mime = Some ''video/avc'',
            samples = [\<lparr>sampleTime = 0, sampleSize = 10, sampleFlags = 1\<rparr>,
                       \<lparr>sampleTime = 33333, sampleSize = 11, sampleFlags = 0\<rparr>]\<rparr>]\<rparr>,
      ''/cache/video_buffer/segment_1.mp4'' \<mapsto>
         \<lparr>bytes = [2], media = Some [\<lparr>mime = Some ''video/avc'',
            samples = [\<lparr>sampleTime = 20000, sampleSize = 20, sampleFlags = 1\<rparr>,
                       \<lparr>sampleTime = 53333, sampleSize = 21, sampleFlags = 0\<rparr>]\<rparr>]\<rparr>]
     VideoTrack
     [''/cache/video_buffer/segment_0.mp4'', ''/cache/video_buffer/segment_1.mp4'']
     ''/cache/temp_output_20260101_000000.mp4'' =
     [0, 33333] @ map (\<lambda>t. t + (33333 + 33333)) [20000, 53333] \<and>
   Min (set (map (\<lambda>t. t + (33333 + 33333)) [20000, 53333 :: int])) - 33333 = 33333 + 20000 \<and>
   (\<exists>new. outputTimestamps
     \<lparr>formattedDate = ''20260101_000000'', contextCacheDir = ''/cache'', sdkAtLeastQ = True,
      resolverInsert = None, outputStreamOpens = True, mp4Bytes = (\<lambda>ts. [])\<rparr>
     [''/cache/video_buffer/segment_0.mp4'' \<mapsto>
         \<lparr>bytes = [1], media = Some [\<lparr>mime = Some ''video/avc'',
            samples = [\<lparr>sampleTime = 0, sampleSize = 10, sampleFlags = 1\<rparr>,
                       \<lparr>sampleTime = 33333, sampleSize = 11, sampleFlags = 0\<rparr>]\<rparr>]\<rparr>,
      ''/cache/video_buffer/segment_1.mp4'' \<mapsto>
         \<lparr>bytes = [2], media = Some [\<lparr>mime = Some ''video/avc'',
            samples = [\<lparr>sampleTime = 20000, sampleSize = 20, sampleFlags = 1\<rparr>,
                       \<lparr>sampleTime = 53333, sampleSize = 21, sampleFlags = 0\<rparr>]\<rparr>]\<rparr>]
     VideoTrack
     [''/cache/video_buffer/segment_0.mp4'', ''/cache/video_buffer/segment_1.mp4'']
     ''/cache/temp_output_20260101_000000.mp4'' = [0, 33333] @ new)"
proof -
  let ?env = "\<lparr>formattedDate = ''20260101_000000'', contextCacheDir = ''/cache'', sdkAtLeastQ = True,
      resolverInsert = None, outputStreamOpens = True, mp4Bytes = (\<lambda>ts. [])\<rparr> :: platform"
  let ?a = "''/cache/video_buffer/segment_0.mp4''"
  let ?b = "''/cache/video_buffer/segment_1.mp4''"
  let ?out = "''/cache/temp_output_20260101_000000.mp4''"
  let ?fs = "[?a \<mapsto>
         \<lparr>bytes = [1], media = Some [\<lparr>mime = Some ''video/avc'',
            samples = [\<lparr>sampleTime = 0, sampleSize = 10, sampleFlags = 1\<rparr>,
                       \<lparr>sampleTime = 33333, sampleSize = 11, sampleFlags = 0\<rparr>]\<rparr>]\<rparr>,
      ?b \<mapsto>
         \<lparr>bytes = [2], media = Some [\<lparr>mime = Some ''video/avc'',
            samples = [\<lparr>sampleTime = 20000, sampleSize = 20, sampleFlags = 1\<rparr>,
                       \<lparr>sampleTime = 53333, sampleSize = 21, sampleFlags = 0\<rparr>]\<rparr>]\<rparr>] :: filesystem"
  have h1: "?out \<notin> set [?a, ?b]" by simp
  have h2: "0 \<le> (53333 :: int)" by simp
  have h3: "\<forall>s\<in>set [?a, ?b]. bounded_times 53333 ?fs s"
    by (simp add: bounded_times_def readSamples_def usable_def segmentSamples_def file_exists_def
        file_length_def setDataSource_def startsWith_def)
  have h4: "int (length [?a, ?b]) * (53333 + 33333) < 2 ^ 63" by simp
  have ra: "readable ?fs ?a"
    by (simp add: readable_def usable_def file_exists_def file_length_def setDataSource_def)
  have reg: "registers ?fs VideoTrack [?a, ?b]"
    using ra by (simp add: registers_def setDataSource_def hasTrack_def startsWith_def)
  have ca: "carries ?fs VideoTrack ?a"
    by (simp add: carries_def readSamples_def usable_def segmentSamples_def file_exists_def
        file_length_def setDataSource_def startsWith_def)
  have cb: "carries ?fs VideoTrack ?b"
    by (simp add: carries_def readSamples_def usable_def segmentSamples_def file_exists_def
        file_length_def setDataSource_def startsWith_def)
  have old: "outputTimestamps ?env ?fs VideoTrack [?a] ?out = [0, 33333]"
    by (simp add: run_defs)
  have ts: "timestamps (readSamples ?fs VideoTrack ?b) = [20000, 53333]"
    by (simp add: timestamps_def readSamples_def usable_def segmentSamples_def file_exists_def
        file_length_def setDataSource_def startsWith_def)
  have p: "[?a, ?b] = [] @ [?a] @ [] @ [?b] @ [] \<and> registers ?fs VideoTrack [?a, ?b] \<and>
      carries ?fs VideoTrack ?a \<and> carries ?fs VideoTrack ?b \<and>
      (\<forall>m\<in>set []. \<not> carries ?fs VideoTrack m)"
    using reg ca cb by simp
  note t = timestamps_across_segment_boundaries [OF h1 h2 h3 h4]
  from t [where xs = "[]" and p = ?a and ms = "[]" and q = ?b and zs = "[]" and k = VideoTrack
      and env = ?env] p
  have "outputTimestamps ?env ?fs VideoTrack ([] @ [?a] @ [] @ [?b]) ?out =
      outputTimestamps ?env ?fs VideoTrack ([] @ [?a]) ?out @
      map (\<lambda>t. t + (Max (set (outputTimestamps ?env ?fs VideoTrack ([] @ [?a]) ?out)) +
                     33333 * (1 + int (length (filter (readable ?fs) [])))))
        (timestamps (readSamples ?fs VideoTrack ?b))"
    by blast
  then have o: "outputTimestamps ?env ?fs VideoTrack [?a, ?b] ?out =
      [0, 33333] @ map (\<lambda>t. t + (33333 + 33333)) [20000, 53333]"
    unfolding ts by (simp add: old)
  have g: "Min (set (map (\<lambda>t. t + (33333 + 33333)) [20000, 53333 :: int])) - 33333 = 33333 + 20000"
    by simp
  from t [where xs = "[?a]" and ys = "[?b]" and k = VideoTrack and env = ?env]
  obtain new where "outputTimestamps ?env ?fs VideoTrack [?a, ?b] ?out =
      outputTimestamps ?env ?fs VideoTrack [?a] ?out @ new"
    by auto
  then have "\<exists>new. outputTimestamps ?env ?fs VideoTrack [?a, ?b] ?out = [0, 33333] @ new"
    unfolding old by blast
  with o g show ?thesis by (intro conjI)
qed


section \<open>The segment-record loop\<close>

lemma sint_recorder_segment: "0 < sint (RECORDER_SEGMENT_DURATION_MS v)"
  by (cases v) simp_all

lemma recordSegment_NoCall:
  "called t = NoCall \<Longrightarrow> recordSegment v t p (fs, r) = (fs(p := recorded t), r)"
  by (simp add: recordSegment_def Let_def)

lemma segmentLoop_turn:
  assumes "isActive r" and "state r = CAPTURING_POST" and "called t = NoCall"
    and "createNewSegment (clock t) (fs, segmentManager r) = Some (segmentFile, fs1, sm1)"
  shows "segmentLoop v (t # ts) (fs, r) =
     (if int (length (postSegments r) + 1) * sint (RECORDER_SEGMENT_DURATION_MS v)
           \<ge> sint (postBufferSeconds r) * 1000
      then LoopExit (fs1(segmentFile := recorded t),
             r\<lparr>segmentManager := sm1, postSegments := postSegments r @ [segmentFile]\<rparr>)
      else segmentLoop v ts (fs1(segmentFile := recorded t),
             r\<lparr>segmentManager := sm1, postSegments := postSegments r @ [segmentFile]\<rparr>))"
  using assms by (simp add: recordSegment_NoCall Let_def sint_toLong_times)

lemma loop_exits_after:
  assumes "isActive r" and "state r = CAPTURING_POST"
    and "0 \<le> sint (maxSegments (segmentManager r))"
    and "1 \<le> j" and "j \<le> length ts" and "\<forall>t\<in>set (take j ts). called t = NoCall"
    and "sint (postBufferSeconds r) * 1000
           \<le> int (length (postSegments r) + j) * sint (RECORDER_SEGMENT_DURATION_MS v)"
    and "j = 1 \<or> int (length (postSegments r) + j - 1) * sint (RECORDER_SEGMENT_DURATION_MS v)
           < sint (postBufferSeconds r) * 1000"
  shows "\<exists>fs' r'. segmentLoop v ts (fs, r) = LoopExit (fs', r') \<and> state r' = CAPTURING_POST \<and>
           length (postSegments r') = length (postSegments r) + j \<and>
           take (length (postSegments r)) (postSegments r') = postSegments r"
  using assms
proof (induction j arbitrary: ts fs r)
  case 0
  then show ?case by simp
next
  case (Suc j)
  from Suc.prems(5) obtain t ts' where ts: "ts = t # ts'" by (cases ts) auto
  with Suc.prems(6) have nc: "called t = NoCall" by simp
  from createNewSegment_returns [of "(fs, segmentManager r)" "clock t"] Suc.prems(3)
  obtain p fs1 sm1 where c: "createNewSegment (clock t) (fs, segmentManager r) = Some (p, fs1, sm1)"
    by auto
  let ?r1 = "r\<lparr>segmentManager := sm1, postSegments := postSegments r @ [p]\<rparr>"
  let ?fs1 = "fs1(p := recorded t)"
  note turn = segmentLoop_turn [OF Suc.prems(1,2) nc c, of v ts']
  show ?case
  proof (cases "j = 0")
    case True
    with Suc.prems(7) have "sint (postBufferSeconds r) * 1000
        \<le> int (length (postSegments r) + 1) * sint (RECORDER_SEGMENT_DURATION_MS v)" by simp
    with turn have "segmentLoop v (t # ts') (fs, r) = LoopExit (?fs1, ?r1)"
      by (simp only: if_True)
    moreover have "state ?r1 = CAPTURING_POST" using Suc.prems(2) by simp
    moreover have "length (postSegments ?r1) = length (postSegments r) + Suc j"
      using True by simp
    moreover have "take (length (postSegments r)) (postSegments ?r1) = postSegments r" by simp
    ultimately show ?thesis unfolding ts by blast
  next
    case False
    with Suc.prems(8) have lt: "int (length (postSegments r) + j) * sint (RECORDER_SEGMENT_DURATION_MS v)
           < sint (postBufferSeconds r) * 1000" by simp
    have "int (length (postSegments r) + 1) * sint (RECORDER_SEGMENT_DURATION_MS v)
        \<le> int (length (postSegments r) + j) * sint (RECORDER_SEGMENT_DURATION_MS v)"
      using False sint_recorder_segment [of v] by (intro mult_right_mono) simp_all
    with lt have "\<not> sint (postBufferSeconds r) * 1000
        \<le> int (length (postSegments r) + 1) * sint (RECORDER_SEGMENT_DURATION_MS v)" by simp
    with turn ts have go: "segmentLoop v ts (fs, r) = segmentLoop v ts' (?fs1, ?r1)"
      by (simp del: segmentLoop.simps)
    have m: "maxSegments sm1 = maxSegments (segmentManager r)"
      using createNewSegment_window [OF c] by (intro maxSegments_window) simp
    have a1: "isActive ?r1" using Suc.prems(1) by (simp add: isActive_def)
    have a2: "state ?r1 = CAPTURING_POST" using Suc.prems(2) by simp
    have a3: "0 \<le> sint (maxSegments (segmentManager ?r1))" using Suc.prems(3) m by simp
    have a4: "1 \<le> j" using False by simp
    have a5: "j \<le> length ts'" using Suc.prems(5) ts by simp
    have a6: "\<forall>t\<in>set (take j ts'). called t = NoCall" using Suc.prems(6) ts by simp
    have a7: "sint (postBufferSeconds ?r1) * 1000
           \<le> int (length (postSegments ?r1) + j) * sint (RECORDER_SEGMENT_DURATION_MS v)"
      using Suc.prems(7) by simp
    have a8: "j = 1 \<or> int (length (postSegments ?r1) + j - 1) * sint (RECORDER_SEGMENT_DURATION_MS v)
           < sint (postBufferSeconds ?r1) * 1000"
      using lt by simp
    from Suc.IH [OF a1 a2 a3 a4 a5 a6 a7 a8, of ?fs1]
    obtain fs' r' where r: "segmentLoop v ts' (?fs1, ?r1) = LoopExit (fs', r')"
      "state r' = CAPTURING_POST" "length (postSegments r') = length (postSegments ?r1) + j"
      "take (length (postSegments ?r1)) (postSegments r') = postSegments ?r1" by blast
    from r(4) have "take (length (postSegments r)) (take (length (postSegments ?r1)) (postSegments r')) =
        take (length (postSegments r)) (postSegments ?r1)" by simp
    then have "take (length (postSegments r)) (postSegments r') = postSegments r"
      by (simp add: min_def)
    with r go show ?thesis by simp
  qed
qed


text \<open>
  Claim C10. While the state is \<^verbatim>\<open>CAPTURING_POST\<close>, a turn of the segment-record loop appends
  the segment it created to \<^verbatim>\<open>postSegments\<close> whatever the backend recorded (a file, an empty
  file or none), and leaves the loop exactly when the number of \<^verbatim>\<open>postSegments\<close> times the
  nominal segment duration reaches the post-window. So the loop leaves to the finalization
  after the first turn at which that product reaches the post-window, with one entry of
  \<^verbatim>\<open>postSegments\<close> per turn, independently of what was recorded.
\<close>

theorem post_capture_counts_created_segments:
  "(isActive r \<and> state r = CAPTURING_POST \<and> called t = NoCall \<and>
    createNewSegment (clock t) (fs, segmentManager r) = Some (segmentFile, fs1, sm1) \<longrightarrow>
      segmentLoop v (t # ts) (fs, r) =
        (if int (length (postSegments r) + 1) * sint (RECORDER_SEGMENT_DURATION_MS v)
              \<ge> sint (postBufferSeconds r) * 1000
         then LoopExit (fs1(segmentFile := recorded t),
                r\<lparr>segmentManager := sm1, postSegments := postSegments r @ [segmentFile]\<rparr>)
         else segmentLoop v ts (fs1(segmentFile := recorded t),
                r\<lparr>segmentManager := sm1, postSegments := postSegments r @ [segmentFile]\<rparr>))) \<and>
   (isActive r \<and> state r = CAPTURING_POST \<and> 0 \<le> sint (maxSegments (segmentManager r)) \<and>
    1 \<le> n \<and> n \<le> length us \<and> (\<forall>u\<in>set (take n us). called u = NoCall) \<and>
    sint (postBufferSeconds r) * 1000
      \<le> int (length (postSegments r) + n) * sint (RECORDER_SEGMENT_DURATION_MS v) \<and>
    (n = 1 \<or> int (length (postSegments r) + n - 1) * sint (RECORDER_SEGMENT_DURATION_MS v)
               < sint (postBufferSeconds r) * 1000) \<longrightarrow>
      (\<exists>fs' r'. segmentLoop v us (fs, r) = LoopExit (fs', r') \<and> state r' = CAPTURING_POST \<and>
         length (postSegments r') = length (postSegments r) + n \<and>
         take (length (postSegments r)) (postSegments r') = postSegments r \<and>
         startSegmentLoop v env us (fs, ms, r) = Some (finalizeCapture env (fs', ms, r'))))"
proof (rule conjI; rule impI)
  assume "isActive r \<and> state r = CAPTURING_POST \<and> called t = NoCall \<and>
    createNewSegment (clock t) (fs, segmentManager r) = Some (segmentFile, fs1, sm1)"
  then show "segmentLoop v (t # ts) (fs, r) =
        (if int (length (postSegments r) + 1) * sint (RECORDER_SEGMENT_DURATION_MS v)
              \<ge> sint (postBufferSeconds r) * 1000
         then LoopExit (fs1(segmentFile := recorded t),
                r\<lparr>segmentManager := sm1, postSegments := postSegments r @ [segmentFile]\<rparr>)
         else segmentLoop v ts (fs1(segmentFile := recorded t),
                r\<lparr>segmentManager := sm1, postSegments := postSegments r @ [segmentFile]\<rparr>))"
    by (intro segmentLoop_turn) simp_all
next
  assume a: "isActive r \<and> state r = CAPTURING_POST \<and> 0 \<le> sint (maxSegments (segmentManager r)) \<and>
    1 \<le> n \<and> n \<le> length us \<and> (\<forall>u\<in>set (take n us). called u = NoCall) \<and>
    sint (postBufferSeconds r) * 1000
      \<le> int (length (postSegments r) + n) * sint (RECORDER_SEGMENT_DURATION_MS v) \<and>
    (n = 1 \<or> int (length (postSegments r) + n - 1) * sint (RECORDER_SEGMENT_DURATION_MS v)
               < sint (postBufferSeconds r) * 1000)"
  then have "\<exists>fs' r'. segmentLoop v us (fs, r) = LoopExit (fs', r') \<and> state r' = CAPTURING_POST \<and>
           length (postSegments r') = length (postSegments r) + n \<and>
           take (length (postSegments r)) (postSegments r') = postSegments r"
    by (elim conjE) (rule loop_exits_after; assumption)
  then obtain fs' r' where e: "segmentLoop v us (fs, r) = LoopExit (fs', r')" "state r' = CAPTURING_POST"
    "length (postSegments r') = length (postSegments r) + n"
    "take (length (postSegments r)) (postSegments r') = postSegments r" by blast
  from e(1,2) have "startSegmentLoop v env us (fs, ms, r) = Some (finalizeCapture env (fs', ms, r'))"
    by (simp add: startSegmentLoop_def)
  with e show "\<exists>fs' r'. segmentLoop v us (fs, r) = LoopExit (fs', r') \<and> state r' = CAPTURING_POST \<and>
         length (postSegments r') = length (postSegments r) + n \<and>
         take (length (postSegments r)) (postSegments r') = postSegments r \<and>
         startSegmentLoop v env us (fs, ms, r) = Some (finalizeCapture env (fs', ms, r'))"
    by blast
qed

theorem post_capture_counts_created_segments_witness:
  "(\<exists>fs' r'.
     segmentLoop ProviderRecorder
       [\<lparr>clock = 1, during = None, called = NoCall, recorded = None\<rparr>,
        \<lparr>clock = 2, during = None, called = NoCall,
         recorded = Some \<lparr>bytes = [], media = None\<rparr>\<rparr>]
       (Map.empty, (new_recorder ''/cache'')\<lparr>state := CAPTURING_POST,
          segmentRecordingJob := Some True, postBufferSeconds := 1\<rparr>) = LoopExit (fs', r') \<and>
     state r' = CAPTURING_POST \<and> length (postSegments r') = 2) \<and>
   (\<exists>fs' r'.
     segmentLoop ProviderRecorder
       [\<lparr>clock = 1, during = None, called = NoCall, recorded = None\<rparr>]
       (Map.empty, (new_recorder ''/cache'')\<lparr>state := CAPTURING_POST,
          segmentRecordingJob := Some True, postBufferSeconds := 1\<rparr>) = StillRunning (fs', r') \<and>
     fs' ''/cache/video_buffer/segment_0.mp4'' = None \<and>
     postSegments r' = [''/cache/video_buffer/segment_0.mp4''])"
proof -
  let ?r = "(new_recorder ''/cache'')\<lparr>state := CAPTURING_POST,
          segmentRecordingJob := Some True, postBufferSeconds := 1\<rparr>"
  let ?t1 = "\<lparr>clock = 1, during = None, called = NoCall, recorded = None\<rparr> :: turn"
  let ?us = "[?t1,
        \<lparr>clock = 2, during = None, called = NoCall,
         recorded = Some \<lparr>bytes = [], media = None\<rparr>\<rparr>] :: turn list"
  let ?seg0 = "''/cache/video_buffer/segment_0.mp4''"
  let ?sm1 = "\<lparr>cacheDir = ''/cache'',
      segments = [\<lparr>file_p = ?seg0, startTimeMs = 1, durationMs = 500, index = 0\<rparr>],
      bufferDurationMs = 5000, segmentCounter = 1\<rparr>"
  have m: "sint (maxSegments (segmentManager ?r)) = 12"
    by (simp add: new_recorder_def new_segment_manager_def maxSegments_def long_div_def toInt_def
        SEGMENT_DURATION_MS_def)
  have h: "isActive ?r \<and> state ?r = CAPTURING_POST \<and> 0 \<le> sint (maxSegments (segmentManager ?r)) \<and>
    1 \<le> (2::nat) \<and> 2 \<le> length ?us \<and> (\<forall>u\<in>set (take 2 ?us). called u = NoCall) \<and>
    sint (postBufferSeconds ?r) * 1000
      \<le> int (length (postSegments ?r) + 2) * sint (RECORDER_SEGMENT_DURATION_MS ProviderRecorder) \<and>
    ((2::nat) = 1 \<or> int (length (postSegments ?r) + 2 - 1) * sint (RECORDER_SEGMENT_DURATION_MS ProviderRecorder)
               < sint (postBufferSeconds ?r) * 1000)"
    unfolding m by (simp add: isActive_def new_recorder_def)
  have l: "length (postSegments ?r) = 0" by (simp add: new_recorder_def)
  from post_capture_counts_created_segments [of ?r _ Map.empty _ _ _ ProviderRecorder _ 2 ?us] h
  obtain fs' r' where "segmentLoop ProviderRecorder ?us (Map.empty, ?r) = LoopExit (fs', r')"
    "state r' = CAPTURING_POST" "length (postSegments r') = length (postSegments ?r) + 2"
    by blast
  then have a: "\<exists>fs' r'. segmentLoop ProviderRecorder ?us (Map.empty, ?r) = LoopExit (fs', r') \<and>
     state r' = CAPTURING_POST \<and> length (postSegments r') = 2"
    unfolding l by auto
  have c: "createNewSegment (clock ?t1) (Map.empty, segmentManager ?r) = Some (?seg0, Map.empty, ?sm1)"
    by (simp add: new_recorder_def new_segment_manager_def createNewSegment_def trimBuffer_def
        trimLoop.simps maxSegments_def long_div_def toInt_def SEGMENT_DURATION_MS_def segmentDir_def
        SEGMENT_PREFIX_def SEGMENT_EXTENSION_def int_toString_def digits.simps digit_def Let_def)
  have g: "isActive ?r \<and> state ?r = CAPTURING_POST \<and> called ?t1 = NoCall \<and>
    createNewSegment (clock ?t1) (Map.empty, segmentManager ?r) = Some (?seg0, Map.empty, ?sm1)"
    using c by (simp add: isActive_def new_recorder_def)
  let ?r1 = "?r\<lparr>segmentManager := ?sm1, postSegments := postSegments ?r @ [?seg0]\<rparr>"
  from post_capture_counts_created_segments
         [of ?r ?t1 Map.empty ?seg0 Map.empty ?sm1 ProviderRecorder "[]" 2 ?us] g
  have "segmentLoop ProviderRecorder [?t1] (Map.empty, ?r) =
        (if int (length (postSegments ?r) + 1) * sint (RECORDER_SEGMENT_DURATION_MS ProviderRecorder)
              \<ge> sint (postBufferSeconds ?r) * 1000
         then LoopExit (Map.empty(?seg0 := recorded ?t1), ?r1)
         else segmentLoop ProviderRecorder [] (Map.empty(?seg0 := recorded ?t1), ?r1))"
    by blast
  then have "segmentLoop ProviderRecorder [?t1] (Map.empty, ?r) =
      StillRunning (Map.empty(?seg0 := None), ?r1)"
    by (simp add: new_recorder_def isActive_def del: segmentLoop.simps(2))
  moreover have "postSegments ?r1 = [?seg0]" by (simp add: new_recorder_def)
  ultimately have b: "\<exists>fs' r'. segmentLoop ProviderRecorder [?t1] (Map.empty, ?r) = StillRunning (fs', r') \<and>
     fs' ?seg0 = None \<and> postSegments r' = [?seg0]"
    by (metis fun_upd_same)
  from a b show ?thesis by (rule conjI)
qed


end
